theory Spec2Isabelle
  imports
    Main
    "HOL-Library.Word"
    "HOL-Library.Multiset"
    "HOL-Library.Sublist"
    "HOL-Library.Char_ord"
    "HOL-Library.List_Lexorder"
begin

section \<open>Data model\<close>

text \<open>
  The package \<^verbatim>\<open>model\<close> is imported by the adjuster and by the integration harness, but
  its type declarations are not among the sources. The types of this section follow
  section 3 of the spec (data model), which lists the attributes of TraceID, SpanID,
  KeyValue, Process, SpanRef, Span and Trace. Two invariants of that section fix the shape
  of the embedding: \<^emph>\<open>Process is non-null\<close>, so the field \<open>Process\<close> of a span is a value and
  not an optional reference, and \<^emph>\<open>each Span exclusively owns its Process, Tags, Logs,
  References\<close>, so the in-place updates that the Go code performs through pointers are
  updates of the span's own fields, and a trace is a list of span values.

  Go strings are byte sequences compared bytewise; \<open>string\<close> with the orders of
  \<open>Char_ord\<close> and \<open>List_Lexorder\<close> is the same order.
\<close>

type_synonym uint16 = "16 word"
type_synonym uint64 = "64 word"

text \<open>
  Modelled from the spec: \<^verbatim>\<open>model.TraceID\<close> (not among the sources), a 128-bit identifier as
  two unsigned 64-bit halves.
\<close>

record TraceID =
  High :: uint64
  Low :: uint64

text \<open>Modelled from the spec: \<^verbatim>\<open>model.SpanID\<close>, a 64-bit unsigned integer.\<close>

type_synonym SpanID = uint64

text \<open>
  Modelled from the spec: the typed value of a \<^verbatim>\<open>model.KeyValue\<close> (string, bool, int64,
  float64, binary). A float64 is kept as its 64 bits: the code here only moves values.
\<close>

datatype TagValue =
    StringValue string
  | BoolValue bool
  | Int64Value "64 word"
  | Float64Value "64 word"
  | BinaryValue "8 word list"

text \<open>Modelled from the spec: \<^verbatim>\<open>model.KeyValue\<close>, a key and a typed value.\<close>

record KeyValue =
  Key :: string
  Value :: TagValue

text \<open>Modelled from the spec: \<^verbatim>\<open>model.SpanRef\<close> and the two kinds of reference.\<close>

datatype SpanRefType = ChildOf | FollowsFrom

record SpanRef =
  RefTraceID :: TraceID
  RefSpanID :: SpanID
  RefType :: SpanRefType

text \<open>
  Modelled from the spec: an entry of the \<open>Logs\<close> of a span. The spec names the attribute
  and no more; an entry is a time and its fields.
\<close>

record Log =
  Timestamp :: int
  Fields :: "KeyValue list"

text \<open>
  Modelled from the spec: \<^verbatim>\<open>model.Process\<close>, a service name and tags. \<open>ProcessTags\<close> is the
  field \<^verbatim>\<open>Process.Tags\<close> (one name cannot be a field of two records).
\<close>

record Process =
  ServiceName :: string
  ProcessTags :: "KeyValue list"

text \<open>
  Modelled from the spec: \<^verbatim>\<open>model.Span\<close>, with the attributes of section 3. \<open>StartTime\<close> and
  \<open>Duration\<close> count nanoseconds.
\<close>

record Span =
  TraceID :: TraceID
  SpanID :: SpanID
  OperationName :: string
  References :: "SpanRef list"
  Flags :: "32 word"
  StartTime :: int
  Duration :: int
  Tags :: "KeyValue list"
  Logs :: "Log list"
  Process :: Process

text \<open>Modelled from the spec: \<^verbatim>\<open>model.Trace\<close>, its spans.\<close>

record Trace =
  Spans :: "Span list"

section \<open>The OTel tag adjuster\<close>

text \<open>
  Modelled from the spec: the five keys of \<^verbatim>\<open>otelLibraryKeys\<close> are constants of package
  \<^verbatim>\<open>otelsemconv\<close>, which is not among the sources; their values are the recognized keys of
  section 4.1 of the spec. The Go map with empty values is a set.
\<close>

definition otelLibraryKeys :: "string set" where
  "otelLibraryKeys =
     {''telemetry.sdk.language'',
      ''telemetry.sdk.name'',
      ''telemetry.sdk.version'',
      ''telemetry.distro.name'',
      ''telemetry.distro.version''}"

text \<open>
  The loop of \<^verbatim>\<open>adjustSpanTags\<close>, with the slice \<^verbatim>\<open>span.Tags\<close> as the array \<open>tags\<close> that it
  overwrites in place, the read index \<open>i\<close> of \<^verbatim>\<open>range\<close>, the write index \<open>newI\<close> and
  \<^verbatim>\<open>span.Process.Tags\<close> as \<open>ptags\<close>. \<^verbatim>\<open>range\<close> fixes the number of iterations when the loop
  starts and reads element \<open>i\<close> of the array at iteration \<open>i\<close>; the writes keep the length.
\<close>

function adjustLoop ::
  "nat \<Rightarrow> nat \<Rightarrow> KeyValue list \<Rightarrow> KeyValue list \<Rightarrow> nat \<times> KeyValue list \<times> KeyValue list" where
  "adjustLoop i newI tags ptags =
     (if i < length tags then
        (let tag = tags ! i in
         if Key tag \<in> otelLibraryKeys then adjustLoop (i + 1) newI tags (ptags @ [tag])
         else adjustLoop (i + 1) (newI + 1) (if i \<noteq> newI then tags[newI := tag] else tags) ptags)
      else (newI, tags, ptags))"
  by pat_completeness auto
termination
  by (relation "measure (\<lambda>(i, newI, tags, ptags). length tags - i)") auto

text \<open>\<^verbatim>\<open>span.Tags = span.Tags[:newI]\<close> after the loop.\<close>

definition adjustSpanTags :: "Span \<Rightarrow> Span" where
  "adjustSpanTags span =
     (case adjustLoop 0 0 (Tags span) (ProcessTags (Process span)) of
        (newI, tags, ptags) \<Rightarrow>
          span\<lparr>Tags := take newI tags, Process := (Process span)\<lparr>ProcessTags := ptags\<rparr>\<rparr>)"

text \<open>
  Modelled from the spec: \<^verbatim>\<open>model.KeyValues.Sort\<close> is called by the adjuster but is not among
  the sources. The spec, section 4.1: \<^emph>\<open>After promotion, Process.Tags is stably sorted by
  Key.\<close>
\<close>

definition KeyValues_Sort :: "KeyValue list \<Rightarrow> KeyValue list" where
  "KeyValues_Sort kvs = sort_key Key kvs"

text \<open>The body of the loop over \<^verbatim>\<open>trace.Spans\<close>.\<close>

definition adjustSpan :: "Span \<Rightarrow> Span" where
  "adjustSpan span =
     (let span' = adjustSpanTags span in
      span'\<lparr>Process := (Process span')\<lparr>ProcessTags := KeyValues_Sort (ProcessTags (Process span'))\<rparr>\<rparr>)"

text \<open>
  An adjuster returns the trace and an error; \<open>None\<close> is Go's \<^verbatim>\<open>nil\<close> error. The adjuster
  returns the trace it was given, whose spans it has updated.
\<close>

datatype adjuster_error = AdjusterError string

definition OTelTagAdjuster :: "Trace \<Rightarrow> Trace \<times> adjuster_error option" where
  "OTelTagAdjuster trace = (trace\<lparr>Spans := map adjustSpan (Spans trace)\<rparr>, None)"

text \<open>
  Scenario 1 of the spec (adjuster promotion): a span with four tags, two of them telemetry
  tags, and no process tag.
\<close>

definition scenario_span :: Span where
  "scenario_span =
     \<lparr>TraceID = \<lparr>High = 0, Low = 1\<rparr>, SpanID = 1, OperationName = ''GET /'',
      References = [], Flags = 0, StartTime = 0, Duration = 0,
      Tags =
        [\<lparr>Key = ''http.method'', Value = StringValue ''GET''\<rparr>,
         \<lparr>Key = ''telemetry.sdk.name'', Value = StringValue ''x''\<rparr>,
         \<lparr>Key = ''telemetry.sdk.version'', Value = StringValue ''1.2''\<rparr>,
         \<lparr>Key = ''db.system'', Value = StringValue ''pg''\<rparr>],
      Logs = [],
      Process = \<lparr>ServiceName = ''svc'', ProcessTags = []\<rparr>\<rparr>"

definition scenario_trace :: Trace where
  "scenario_trace = \<lparr>Spans = [scenario_span]\<rparr>"

section \<open>TLS cipher suite names\<close>

text \<open>
  \<^verbatim>\<open>tls.CipherSuites()\<close> is the table of the Go standard library: the suites it implements,
  each with its name and its 16-bit identifier. It is a parameter \<open>suites\<close> of the model.
\<close>

record CipherSuite =
  ID :: uint16
  Name :: string

text \<open>The error of \<^verbatim>\<open>CipherSuiteNamesToIDs\<close>; it carries the name that was not found.\<close>

datatype tlscfg_error = CipherSuiteNotSupported string

text \<open>\<^verbatim>\<open>allCiphers\<close>: the table as a Go map, filled entry by entry in the order of the table.\<close>

definition allCiphers :: "CipherSuite list \<Rightarrow> (string \<rightharpoonup> uint16)" where
  "allCiphers suites =
     fold (\<lambda>suite acceptedCiphers. acceptedCiphers(Name suite \<mapsto> ID suite)) suites Map.empty"

text \<open>
  A Go slice value is \<^verbatim>\<open>nil\<close> (\<open>None\<close>) or a slice with its elements (\<open>Some\<close>);
  \<^verbatim>\<open>append\<close> to either gives a slice that is not nil.
\<close>

definition go_append :: "'a list option \<Rightarrow> 'a \<Rightarrow> 'a list option" where
  "go_append xs x = (case xs of None \<Rightarrow> Some [x] | Some elems \<Rightarrow> Some (elems @ [x]))"

text \<open>
  The loop of \<^verbatim>\<open>CipherSuiteNamesToIDs\<close> over \<^verbatim>\<open>cipherNames\<close>, with \<^verbatim>\<open>ciphersIDs\<close> as
  accumulator. The result is Go's pair: the slice, and the error (\<open>None\<close> is \<^verbatim>\<open>nil\<close>).
\<close>

fun cipherNamesLoop ::
  "(string \<rightharpoonup> uint16) \<Rightarrow> string list \<Rightarrow> uint16 list option \<Rightarrow>
   uint16 list option \<times> tlscfg_error option" where
  "cipherNamesLoop possibleCiphers [] ciphersIDs = (ciphersIDs, None)"
| "cipherNamesLoop possibleCiphers (cipher # rest) ciphersIDs =
     (case possibleCiphers cipher of
        None \<Rightarrow> (None, Some (CipherSuiteNotSupported cipher))
      | Some intValue \<Rightarrow> cipherNamesLoop possibleCiphers rest (go_append ciphersIDs intValue))"

definition CipherSuiteNamesToIDs ::
  "CipherSuite list \<Rightarrow> string list \<Rightarrow> uint16 list option \<times> tlscfg_error option" where
  "CipherSuiteNamesToIDs suites cipherNames = cipherNamesLoop (allCiphers suites) cipherNames None"

text \<open>
  Five entries of the table of the Go standard library (the names used by
  \<^verbatim>\<open>TestCipherSuiteNamesToIDs\<close>, with their registered identifiers), for concrete runs.
\<close>

definition sample_suites :: "CipherSuite list" where
  "sample_suites =
     [\<lparr>ID = 0x1301, Name = ''TLS_AES_128_GCM_SHA256''\<rparr>,
      \<lparr>ID = 0x1302, Name = ''TLS_AES_256_GCM_SHA384''\<rparr>,
      \<lparr>ID = 0x1303, Name = ''TLS_CHACHA20_POLY1305_SHA256''\<rparr>,
      \<lparr>ID = 0xc013, Name = ''TLS_ECDHE_RSA_WITH_AES_128_CBC_SHA''\<rparr>,
      \<lparr>ID = 0xc02c, Name = ''TLS_ECDHE_ECDSA_WITH_AES_256_GCM_SHA384''\<rparr>]"

section \<open>The integration harness: waiting for the backend\<close>

definition iterations :: nat where
  "iterations = 100"

text \<open>
  What \<^verbatim>\<open>waitForCondition\<close> does, in order: calls of the predicate with what they
  returned, and sleeps with their length in seconds. (The lines written by \<^verbatim>\<open>t.Logf\<close> are
  not part of the model.)
\<close>

datatype poll_event = PredicateCall bool | Sleep nat

text \<open>
  The predicate reads the storage backend, so it is a function of the state \<open>w\<close> of the
  world and may change it; \<open>sleep\<close> is what one second does to the world. The model
  covers a predicate that returns: one that ends the test (\<^verbatim>\<open>require\<close>) never comes back
  to the loop. \<open>waitLoop\<close> is the \<^verbatim>\<open>for\<close> loop from iteration \<open>i\<close> on, followed by the last
  call.
\<close>

function waitLoop ::
  "('w \<Rightarrow> bool \<times> 'w) \<Rightarrow> ('w \<Rightarrow> 'w) \<Rightarrow> nat \<Rightarrow> 'w \<Rightarrow> poll_event list \<Rightarrow>
   bool \<times> 'w \<times> poll_event list" where
  "waitLoop predicate sleep i w events =
     (if i < iterations then
        (case predicate w of
           (ok, w') \<Rightarrow>
             if ok then (True, w', events @ [PredicateCall True])
             else waitLoop predicate sleep (i + 1) (sleep w') (events @ [PredicateCall False, Sleep 1]))
      else
        (case predicate w of (ok, w') \<Rightarrow> (ok, w', events @ [PredicateCall ok])))"
  by pat_completeness auto
termination
  by (relation "measure (\<lambda>(predicate, sleep, i, w, events). iterations - i)") auto

definition waitForCondition ::
  "('w \<Rightarrow> bool \<times> 'w) \<Rightarrow> ('w \<Rightarrow> 'w) \<Rightarrow> 'w \<Rightarrow> bool \<times> 'w \<times> poll_event list" where
  "waitForCondition predicate sleep w = waitLoop predicate sleep 0 w []"

text \<open>
  The state of the world at the start of round \<open>k\<close> when the predicate has returned false
  in every round before: each round is a call of the predicate and a sleep.
\<close>

definition world_at :: "('w \<Rightarrow> bool \<times> 'w) \<Rightarrow> ('w \<Rightarrow> 'w) \<Rightarrow> 'w \<Rightarrow> nat \<Rightarrow> 'w" where
  "world_at predicate sleep w k = ((\<lambda>v. sleep (snd (predicate v))) ^^ k) w"

definition sleeps :: "poll_event list \<Rightarrow> nat" where
  "sleeps events = length (filter (\<lambda>e. case e of Sleep _ \<Rightarrow> True | PredicateCall _ \<Rightarrow> False) events)"

text \<open>
  Two worlds for concrete runs: the number of seconds slept so far, with a predicate that
  holds from the third second on, and with one that never holds.
\<close>

definition ready_after_three :: "nat \<Rightarrow> bool \<times> nat" where
  "ready_after_three w = (3 \<le> w, w)"

definition never_ready :: "nat \<Rightarrow> bool \<times> nat" where
  "never_ready w = (False, w)"

section \<open>The integration harness: the large trace\<close>

text \<open>
  A storage backend is a state \<open>'st\<close> with its operations as parameters: the interfaces
  \<^verbatim>\<open>spanstore.Writer\<close> and \<^verbatim>\<open>spanstore.Reader\<close> are implemented outside the sources.
  An operation returns an error (\<open>Inl\<close>) or its result.

  \<^verbatim>\<open>writeTrace\<close> writes the spans in order and stops at the first error.
\<close>

fun writeTrace :: "('st \<Rightarrow> Span \<Rightarrow> 'e + 'st) \<Rightarrow> 'st \<Rightarrow> Span list \<Rightarrow> 'e + 'st" where
  "writeTrace WriteSpan st [] = Inr st"
| "writeTrace WriteSpan st (span # spans) =
     (case WriteSpan st span of
        Inl err \<Rightarrow> Inl err
      | Inr st' \<Rightarrow> writeTrace WriteSpan st' spans)"

text \<open>\<^verbatim>\<open>time.Second\<close>, a \<^verbatim>\<open>time.Duration\<close>: a number of nanoseconds.\<close>

definition time_Second :: int where
  "time_Second = 1000000000"

text \<open>
  The loop of \<^verbatim>\<open>loadParseAndWriteLargeTrace\<close> from \<open>i\<close> on: \<open>s\<close> is a copy of \<open>span\<close>, then
  its \<open>SpanID\<close> and its \<open>StartTime\<close> are assigned, and it is appended to \<^verbatim>\<open>trace.Spans\<close>.
  (\<open>i + 1 \<le> 10008\<close>, so the product of durations is far from the bounds of 64 bits.)
\<close>

function largeTraceLoop :: "Span \<Rightarrow> nat \<Rightarrow> Span list \<Rightarrow> Span list" where
  "largeTraceLoop span i spans =
     (if i < 10008 then
        (let s = span;
             s = s\<lparr>SpanID := of_nat i\<rparr>;
             s = s\<lparr>StartTime := StartTime s + time_Second * int (i + 1)\<rparr>
         in largeTraceLoop span (i + 1) (spans @ [s]))
      else spans)"
  by pat_completeness auto
termination
  by (relation "measure (\<lambda>(span, i, spans). 10008 - i)") auto

declare largeTraceLoop.simps [simp del]

text \<open>
  How a test of the harness can end before its assertions: an index out of range (a
  panic), or an error where \<^verbatim>\<open>require.NoError\<close> wants none.
\<close>

datatype 'e harness_failure = IndexOutOfRange | RequireNoError 'e

text \<open>
  The spans of the large trace: \<^verbatim>\<open>trace.Spans\<close> is first the slice with \<open>span\<close> alone, then
  the loop runs from \<open>i = 1\<close>.
\<close>

definition largeTraceSpans :: "Span \<Rightarrow> Span list" where
  "largeTraceSpans span = largeTraceLoop span 1 [span]"

text \<open>
  \<^verbatim>\<open>loadParseAndWriteLargeTrace\<close>. \<open>fixture\<close> is the trace that
  \<^verbatim>\<open>getTraceFixture(t, "example_trace")\<close> has parsed (the fixture files are not among the
  sources). \<^verbatim>\<open>trace.Spans[0]\<close> panics on a fixture without spans.
\<close>

definition loadParseAndWriteLargeTrace ::
  "('st \<Rightarrow> Span \<Rightarrow> 'e + 'st) \<Rightarrow> Trace \<Rightarrow> 'st \<Rightarrow> 'e harness_failure + Trace \<times> 'st" where
  "loadParseAndWriteLargeTrace WriteSpan fixture st =
     (case Spans fixture of
        [] \<Rightarrow> Inl IndexOutOfRange
      | span # _ \<Rightarrow>
          (let trace = fixture\<lparr>Spans := largeTraceSpans span\<rparr> in
           case writeTrace WriteSpan st (Spans trace) of
             Inl err \<Rightarrow> Inl (RequireNoError err)
           | Inr st' \<Rightarrow> Inr (trace, st')))"

text \<open>
  The predicate that \<^verbatim>\<open>testGetLargeSpan\<close> polls:
  \<^verbatim>\<open>err == nil && len(actual.Spans) == len(expected.Spans)\<close>.
\<close>

definition largeSpanFound ::
  "('st \<Rightarrow> TraceID \<Rightarrow> 'e + Trace) \<Rightarrow> TraceID \<Rightarrow> Trace \<Rightarrow> 'st \<Rightarrow> bool \<times> 'st" where
  "largeSpanFound GetTrace expectedTraceID expected st =
     (case GetTrace st expectedTraceID of
        Inl err \<Rightarrow> (False, st)
      | Inr actual \<Rightarrow> (length (Spans actual) = length (Spans expected), st))"

text \<open>
  \<^verbatim>\<open>testGetLargeSpan\<close> after \<^verbatim>\<open>skipIfNeeded\<close>: write the large trace, refresh, poll. The
  result is \<open>found\<close>, which the test asserts to be true. (The clean-up deferred to the end
  of the test is not part of the model.)
\<close>

definition testGetLargeSpan ::
  "('st \<Rightarrow> Span \<Rightarrow> 'e + 'st) \<Rightarrow> ('st \<Rightarrow> TraceID \<Rightarrow> 'e + Trace) \<Rightarrow> ('st \<Rightarrow> 'e + 'st) \<Rightarrow>
   ('st \<Rightarrow> 'st) \<Rightarrow> Trace \<Rightarrow> 'st \<Rightarrow> 'e harness_failure + bool" where
  "testGetLargeSpan WriteSpan GetTrace Refresh sleep fixture st =
     (case loadParseAndWriteLargeTrace WriteSpan fixture st of
        Inl failure \<Rightarrow> Inl failure
      | Inr (expected, st1) \<Rightarrow>
          (case Spans expected of
             [] \<Rightarrow> Inl IndexOutOfRange
           | first # _ \<Rightarrow>
               (case Refresh st1 of
                  Inl err \<Rightarrow> Inl (RequireNoError err)
                | Inr st2 \<Rightarrow>
                    Inr (fst (waitForCondition
                                (largeSpanFound GetTrace (TraceID first) expected) sleep st2)))))"

text \<open>
  A backend for concrete runs: the state is the list of the spans written so far, every
  write succeeds, and a trace is read back as the spans with its id.
\<close>

definition memory_WriteSpan :: "Span list \<Rightarrow> Span \<Rightarrow> string + Span list" where
  "memory_WriteSpan st span = Inr (st @ [span])"

definition memory_GetTrace :: "Span list \<Rightarrow> TraceID \<Rightarrow> string + Trace" where
  "memory_GetTrace st traceID =
     (case filter (\<lambda>span. TraceID span = traceID) st of
        [] \<Rightarrow> Inl ''trace not found''
      | spans \<Rightarrow> Inr \<lparr>Spans = spans\<rparr>)"

section \<open>The sampling store\<close>

text \<open>
  A \<^verbatim>\<open>float64\<close> is kept as its 64 bits (IEEE 754); the probabilities are stored, returned
  and compared, never computed with.
\<close>

type_synonym float64 = "64 word"

type_synonym ServiceOperationProbabilities = "string \<rightharpoonup> (string \<rightharpoonup> float64)"

type_synonym ServiceOperationQPS = "string \<rightharpoonup> (string \<rightharpoonup> float64)"

text \<open>
  Modelled from the spec: a snapshot of the sampling store, the probabilities and the QPS
  that a host has inserted together.
\<close>

record ProbabilitiesAndQPS =
  Hostname :: string
  Probabilities :: ServiceOperationProbabilities
  QPS :: ServiceOperationQPS

text \<open>
  Modelled from the spec: the implementations of \<^verbatim>\<open>samplingstore.Store\<close> are not among the
  sources. The spec, sections 4.4 and 9: the store is an append-only log of snapshots,
  time-stamped monotonically, so the log is in the order of the insertions.
\<close>

type_synonym SamplingStore = "ProbabilitiesAndQPS list"

text \<open>
  Modelled from the spec: \<^verbatim>\<open>InsertProbabilitiesAndQPS\<close> of a store (not among the sources)
  records a snapshot per host; the snapshot is appended to the log.
\<close>

definition InsertProbabilitiesAndQPS ::
  "SamplingStore \<Rightarrow> string \<Rightarrow> ServiceOperationProbabilities \<Rightarrow> ServiceOperationQPS \<Rightarrow>
   SamplingStore" where
  "InsertProbabilitiesAndQPS store hostname probabilities qps =
     store @ [\<lparr>Hostname = hostname, Probabilities = probabilities, QPS = qps\<rparr>]"

text \<open>
  Modelled from the spec: \<^verbatim>\<open>GetLatestProbabilities\<close> of a store (not among the sources)
  returns the probabilities of the most recent snapshot across all hosts, regardless of
  which host wrote it. The spec does not say what an empty store returns; the model returns
  the empty map.
\<close>

definition GetLatestProbabilities :: "SamplingStore \<Rightarrow> ServiceOperationProbabilities" where
  "GetLatestProbabilities store =
     (case rev store of [] \<Rightarrow> Map.empty | latest # _ \<Rightarrow> Probabilities latest)"

text \<open>
  The \<^verbatim>\<open>float64\<close> literals of \<^verbatim>\<open>testGetLatestProbability\<close>: 0.123, 0.1, 11 and 4.
\<close>

definition float_0_123 :: float64 where "float_0_123 = 0x3FBF7CED916872B0"
definition float_0_1 :: float64 where "float_0_1 = 0x3FB999999999999A"
definition float_11 :: float64 where "float_11 = 0x4026000000000000"
definition float_4 :: float64 where "float_4 = 0x4010000000000000"

text \<open>
  \<^verbatim>\<open>testGetLatestProbability\<close> of the harness, for a store given by its two operations: two
  snapshots are inserted, then the latest probabilities are polled until they equal
  \<open>expected\<close>. The result is \<open>found\<close>, which the test asserts to be true.
\<close>

definition testGetLatestProbability ::
  "('st \<Rightarrow> string \<Rightarrow> ServiceOperationProbabilities \<Rightarrow> ServiceOperationQPS \<Rightarrow> 'st) \<Rightarrow>
   ('st \<Rightarrow> ServiceOperationProbabilities) \<Rightarrow> ('st \<Rightarrow> 'st) \<Rightarrow> 'st \<Rightarrow> bool" where
  "testGetLatestProbability Insert GetLatest sleep st =
     (let st1 = Insert st ''newhostname1''
                  [''new-srv3'' \<mapsto> [''op'' \<mapsto> float_0_123]] [''new-srv2'' \<mapsto> [''op'' \<mapsto> float_11]];
          st2 = Insert st1 ''dell11eg843d''
                  [''new-srv'' \<mapsto> [''op'' \<mapsto> float_0_1]] [''new-srv'' \<mapsto> [''op'' \<mapsto> float_4]];
          expected = [''new-srv'' \<mapsto> [''op'' \<mapsto> float_0_1]]
      in fst (waitForCondition (\<lambda>w. (GetLatest w = expected, w)) sleep st2))"

section \<open>The integration harness: skipping tests\<close>

text \<open>
  \<^verbatim>\<open>regexp.QuoteMeta\<close> of the Go standard library puts a backslash before each of the
  characters \<^verbatim>\<open>\.+*?()|[]{}^$\<close> and copies the others.
\<close>

definition special :: "char \<Rightarrow> bool" where
  "special c = (c \<in> set (CHR 0x5C # ''.+*?()|[]{}^$''))"

fun QuoteMeta :: "string \<Rightarrow> string" where
  "QuoteMeta [] = []"
| "QuoteMeta (c # cs) = (if special c then CHR 0x5C # c # QuoteMeta cs else c # QuoteMeta cs)"

text \<open>
  \<^verbatim>\<open>regexp.MatchString\<close> of the Go standard library, for a fragment of its syntax: a pattern
  is a sequence of literal characters, of special characters made literal by a backslash,
  and of dots (any character but a newline), each of which may be followed by one star.
  Every output of \<^verbatim>\<open>QuoteMeta\<close> is in the fragment. For a pattern outside of it (a group, a
  class, an alternative, another repetition) the model answers \<open>OutsideFragment\<close> and says
  nothing about Go. A string is a sequence of bytes.
\<close>

datatype regex_atom = Literal char | AnyCharNotNL

datatype regex_item = One regex_atom | Star regex_atom

datatype regexp_error =
    TrailingBackslash
  | MissingRepeatArgument
  | InvalidNestedRepetition
  | OutsideFragment

fun parse_items :: "string \<Rightarrow> regex_item list \<Rightarrow> regexp_error + regex_item list" where
  "parse_items [] acc = Inr (rev acc)"
| "parse_items (c # cs) acc =
     (if c = CHR 0x5C then
        (case cs of
           [] \<Rightarrow> Inl TrailingBackslash
         | d # ds \<Rightarrow>
             if special d then parse_items ds (One (Literal d) # acc) else Inl OutsideFragment)
      else if c = CHR ''.'' then parse_items cs (One AnyCharNotNL # acc)
      else if c = CHR ''*'' then
        (case acc of
           [] \<Rightarrow> Inl MissingRepeatArgument
         | One a # acc' \<Rightarrow> parse_items cs (Star a # acc')
         | Star a # acc' \<Rightarrow> Inl InvalidNestedRepetition)
      else if special c then Inl OutsideFragment
      else parse_items cs (One (Literal c) # acc))"

fun atom_matches :: "regex_atom \<Rightarrow> char \<Rightarrow> bool" where
  "atom_matches (Literal l) c = (c = l)"
| "atom_matches AnyCharNotNL c = (c \<noteq> CHR 0x0A)"

text \<open>Whether some prefix of the string matches the items.\<close>

fun match_here :: "regex_item list \<Rightarrow> string \<Rightarrow> bool" where
  "match_here [] s = True"
| "match_here (One a # items) [] = False"
| "match_here (One a # items) (c # cs) = (atom_matches a c \<and> match_here items cs)"
| "match_here (Star a # items) [] = match_here items []"
| "match_here (Star a # items) (c # cs) =
     (match_here items (c # cs) \<or> (atom_matches a c \<and> match_here (Star a # items) cs))"

text \<open>The pattern is not anchored: a match may start at any position of the string.\<close>

fun match_anywhere :: "regex_item list \<Rightarrow> string \<Rightarrow> bool" where
  "match_anywhere items [] = match_here items []"
| "match_anywhere items (c # cs) = (match_here items (c # cs) \<or> match_anywhere items cs)"

definition regexp_MatchString :: "string \<Rightarrow> string \<Rightarrow> regexp_error + bool" where
  "regexp_MatchString pattern s =
     (case parse_items pattern [] of
        Inl err \<Rightarrow> Inl err
      | Inr items \<Rightarrow> Inr (match_anywhere items s))"

text \<open>
  \<^verbatim>\<open>skipIfNeeded\<close>, for the \<^verbatim>\<open>SkipList\<close> of the harness and the name \<^verbatim>\<open>t.Name()\<close> of the
  running test: the test is skipped, goes on, or fails at \<^verbatim>\<open>require.NoError\<close>.
\<close>

datatype skip_outcome = Skipped | NotSkipped | SkipCheckFailed regexp_error

fun skipIfNeeded :: "string list \<Rightarrow> string \<Rightarrow> skip_outcome" where
  "skipIfNeeded [] name = NotSkipped"
| "skipIfNeeded (pat # SkipList) name =
     (let escapedPat = QuoteMeta pat in
      case regexp_MatchString escapedPat name of
        Inl err \<Rightarrow> SkipCheckFailed err
      | Inr ok \<Rightarrow> if ok then Skipped else skipIfNeeded SkipList name)"

section \<open>The integration harness: fixture dates\<close>

text \<open>
  \<^verbatim>\<open>strings.ReplaceAll(s, old, new)\<close> of the Go standard library: the occurrences of \<open>old\<close>
  that do not overlap, found from left to right, are replaced by \<open>new\<close>. For an empty
  \<open>old\<close>, \<open>new\<close> is put before every character and at the end (in Go, around every UTF-8
  sequence; the same thing for ASCII text).
\<close>

function ReplaceAll :: "string \<Rightarrow> string \<Rightarrow> string \<Rightarrow> string" where
  "ReplaceAll [] old new = (if old = [] then new else [])"
| "ReplaceAll (c # cs) old new =
     (if old = [] then new @ c # ReplaceAll cs old new
      else if prefix old (c # cs) then new @ ReplaceAll (drop (length old) (c # cs)) old new
      else c # ReplaceAll cs old new)"
  by pat_completeness auto
termination
  by (relation "measure (\<lambda>(s, old, new). length s)") auto

text \<open>
  The calendar of package \<^verbatim>\<open>time\<close> of the Go standard library. \<open>now\<close> is the time of
  \<^verbatim>\<open>time.Now()\<close> in seconds since 1970-01-01 00:00:00 UTC. In UTC,
  \<^verbatim>\<open>now.AddDate(0, 0, -n)\<close> is the same time of day \<open>n\<close> calendar days earlier, and
  \<^verbatim>\<open>Format("2006-01-02")\<close> prints its date in the proleptic Gregorian calendar: the year
  with at least four digits, the month and the day with two.

  \<open>civil_from_days\<close> gives year, month and day of a day counted from 1970-01-01.
\<close>

definition civil_from_days :: "int \<Rightarrow> int \<times> int \<times> int" where
  "civil_from_days days =
     (let z = days + 719468;
          era = z div 146097;
          doe = z mod 146097;
          yoe = (doe - doe div 1460 + doe div 36524 - doe div 146096) div 365;
          doy = doe - (365 * yoe + yoe div 4 - yoe div 100);
          mp = (5 * doy + 2) div 153;
          d = doy - (153 * mp + 2) div 5 + 1;
          m = (if mp < 10 then mp + 3 else mp - 9);
          y = yoe + era * 400
      in (if m \<le> 2 then y + 1 else y, m, d))"

function decimal :: "nat \<Rightarrow> string" where
  "decimal n = (if n < 10 then [''0123456789'' ! n] else decimal (n div 10) @ [''0123456789'' ! (n mod 10)])"
  by pat_completeness auto
termination
  by (relation "measure id") auto

text \<open>An integer in decimal, filled with zeros on the left up to \<open>width\<close> digits.\<close>

definition appendInt :: "int \<Rightarrow> nat \<Rightarrow> string" where
  "appendInt x width =
     (let digits = decimal (nat \<bar>x\<bar>)
      in (if x < 0 then ''-'' else []) @ replicate (width - length digits) CHR ''0'' @ digits)"

definition Format_date :: "int \<times> int \<times> int \<Rightarrow> string" where
  "Format_date date =
     (case date of (y, m, d) \<Rightarrow> appendInt y 4 @ ''-'' @ appendInt m 2 @ ''-'' @ appendInt d 2)"

definition days_ago :: "int \<Rightarrow> int \<Rightarrow> string" where
  "days_ago now n = Format_date (civil_from_days (now div 86400 - n))"

text \<open>\<^verbatim>\<open>correctTime\<close>, with the time of \<^verbatim>\<open>time.Now()\<close> as a parameter.\<close>

definition correctTime :: "int \<Rightarrow> string \<Rightarrow> string" where
  "correctTime now json =
     (let jsonString = json;
          yesterday = days_ago now 1;
          twoDaysAgo = days_ago now 2;
          retString = ReplaceAll jsonString ''2017-01-26'' yesterday;
          retString = ReplaceAll retString ''2017-01-25'' twoDaysAgo
      in retString)"

text \<open>
  \<^verbatim>\<open>loadAndParseJSONPB\<close> and \<^verbatim>\<open>loadAndParseJSON\<close>: the file is read from the embedded
  file system, its dates are corrected, and the result is handed to the parser
  (\<^verbatim>\<open>jsonpb.Unmarshal\<close> for a trace, \<^verbatim>\<open>json.Unmarshal\<close> for the queries). File system and
  parsers are parameters; an error of either ends the test at \<^verbatim>\<open>require.NoError\<close>.
\<close>

definition loadAndParseJSONPB ::
  "(string \<Rightarrow> 'e + string) \<Rightarrow> (string \<Rightarrow> 'e + 'a) \<Rightarrow> int \<Rightarrow> string \<Rightarrow>
   'e harness_failure + 'a" where
  "loadAndParseJSONPB ReadFile jsonpb_Unmarshal now path =
     (case ReadFile path of
        Inl err \<Rightarrow> Inl (RequireNoError err)
      | Inr inStr \<Rightarrow>
          (case jsonpb_Unmarshal (correctTime now inStr) of
             Inl err \<Rightarrow> Inl (RequireNoError err)
           | Inr object \<Rightarrow> Inr object))"

definition loadAndParseJSON ::
  "(string \<Rightarrow> 'e + string) \<Rightarrow> (string \<Rightarrow> 'e + 'a) \<Rightarrow> int \<Rightarrow> string \<Rightarrow>
   'e harness_failure + 'a" where
  "loadAndParseJSON ReadFile json_Unmarshal now path =
     (case ReadFile path of
        Inl err \<Rightarrow> Inl (RequireNoError err)
      | Inr inStr \<Rightarrow>
          (case json_Unmarshal (correctTime now inStr) of
             Inl err \<Rightarrow> Inl (RequireNoError err)
           | Inr object \<Rightarrow> Inr object))"

text \<open>
  The rewriting in the words of the spec, for comparison: in one pass over the text every
  occurrence of \<open>2017-01-26\<close> becomes \<open>yesterday\<close>, every occurrence of \<open>2017-01-25\<close>
  becomes \<open>twoDaysAgo\<close>, and every other byte is copied.
\<close>

function spec_rewrite_dates :: "string \<Rightarrow> string \<Rightarrow> string \<Rightarrow> string" where
  "spec_rewrite_dates yesterday twoDaysAgo [] = []"
| "spec_rewrite_dates yesterday twoDaysAgo (c # cs) =
     (if prefix ''2017-01-26'' (c # cs) then
        yesterday @ spec_rewrite_dates yesterday twoDaysAgo (drop 10 (c # cs))
      else if prefix ''2017-01-25'' (c # cs) then
        twoDaysAgo @ spec_rewrite_dates yesterday twoDaysAgo (drop 10 (c # cs))
      else c # spec_rewrite_dates yesterday twoDaysAgo cs)"
  by pat_completeness auto
termination
  by (relation "measure (\<lambda>(yesterday, twoDaysAgo, s). length s)") auto

text \<open>
  An occurrence of \<open>v\<close> can begin inside \<open>u\<close>, in \<open>u\<close> followed by some text: a suffix of
  \<open>u\<close> that is not empty begins \<open>v\<close>, or \<open>v\<close> begins it.
\<close>

definition overlaps :: "string \<Rightarrow> string \<Rightarrow> bool" where
  "overlaps u v = list_ex (\<lambda>x. x \<noteq> [] \<and> (prefix x v \<or> prefix v x)) (suffixes u)"

text \<open>
  A date string that neither produces nor completes an occurrence of \<open>2017-01-25\<close> where
  it is put into a text.
\<close>

definition date_safe :: "string \<Rightarrow> bool" where
  "date_safe yesterday =
     (\<not> overlaps yesterday ''2017-01-25'' \<and> \<not> overlaps ''2017-01-25'' yesterday)"

section \<open>Properties of the OTel tag adjuster\<close>

lemma adjustLoop_result:
  "newI \<le> i \<Longrightarrow> adjustLoop i newI tags ptags = (n, tags', ptags') \<Longrightarrow>
     take n tags' = take newI tags @ filter (\<lambda>t. Key t \<notin> otelLibraryKeys) (drop i tags) \<and>
     ptags' = ptags @ filter (\<lambda>t. Key t \<in> otelLibraryKeys) (drop i tags)"
proof (induction i newI tags ptags arbitrary: n tags' ptags' rule: adjustLoop.induct)
  case (1 i newI tags ptags)
  show ?case
  proof (cases "i < length tags")
    case False
    with "1.prems" show ?thesis by simp
  next
    case inside: True
    then have split_at: "drop i tags = tags ! i # drop (Suc i) tags"
      by (simp add: Cons_nth_drop_Suc)
    show ?thesis
    proof (cases "Key (tags ! i) \<in> otelLibraryKeys")
      case True
      with inside "1.prems" have
        run: "adjustLoop (i + 1) newI tags (ptags @ [tags ! i]) = (n, tags', ptags')"
        by (simp add: Let_def)
      from "1.prems"(1) have "newI \<le> i + 1" by simp
      from "1.IH"(1)[OF inside refl True this run] split_at True
      show ?thesis by simp
    next
      case False
      let ?tags = "if i \<noteq> newI then tags[newI := tags ! i] else tags"
      from False inside "1.prems" have
        run: "adjustLoop (i + 1) (newI + 1) ?tags ptags = (n, tags', ptags')"
        by (simp add: Let_def)
      from "1.prems"(1) have le: "newI + 1 \<le> i + 1" by simp
      from "1.prems"(1) inside have lt: "newI < length tags" by simp
      have written: "?tags = tags[newI := tags ! i]"
        by simp
      have kept: "take (newI + 1) ?tags = take newI tags @ [tags ! i]"
        using lt by (simp only: written) (simp add: take_Suc_conv_app_nth)
      have rest: "drop (i + 1) ?tags = drop (Suc i) tags"
        using "1.prems"(1) by (simp only: written) simp
      from "1.IH"(2)[OF inside refl False le run] split_at False kept rest
      show ?thesis by simp
    qed
  qed
qed

lemma adjustSpanTags_eq:
  "adjustSpanTags span =
     span\<lparr>Tags := filter (\<lambda>t. Key t \<notin> otelLibraryKeys) (Tags span),
          Process := (Process span)\<lparr>ProcessTags :=
            ProcessTags (Process span) @ filter (\<lambda>t. Key t \<in> otelLibraryKeys) (Tags span)\<rparr>\<rparr>"
proof -
  obtain n tags' ptags' where
    run: "adjustLoop 0 0 (Tags span) (ProcessTags (Process span)) = (n, tags', ptags')"
    by (metis prod_cases3)
  from adjustLoop_result[OF le_refl run] run show ?thesis
    by (simp add: adjustSpanTags_def)
qed

lemma adjustSpan_eq:
  "adjustSpan span =
     span\<lparr>Tags := filter (\<lambda>t. Key t \<notin> otelLibraryKeys) (Tags span),
          Process := (Process span)\<lparr>ProcessTags :=
            sort_key Key
              (ProcessTags (Process span) @
               filter (\<lambda>t. Key t \<in> otelLibraryKeys) (Tags span))\<rparr>\<rparr>"
  by (simp add: adjustSpan_def adjustSpanTags_eq KeyValues_Sort_def Let_def)

lemma Tags_adjustSpan:
  "Tags (adjustSpan span) = filter (\<lambda>t. Key t \<notin> otelLibraryKeys) (Tags span)"
  by (simp add: adjustSpan_eq)

lemma ProcessTags_adjustSpan:
  "ProcessTags (Process (adjustSpan span)) =
     sort_key Key
       (ProcessTags (Process span) @ filter (\<lambda>t. Key t \<in> otelLibraryKeys) (Tags span))"
  by (simp add: adjustSpan_eq)

lemma Spans_OTelTagAdjuster:
  "Spans (fst (OTelTagAdjuster trace)) = map adjustSpan (Spans trace)"
  by (simp add: OTelTagAdjuster_def)

lemma adjustSpan_idem: "adjustSpan (adjustSpan span) = adjustSpan span"
proof -
  let ?keep = "\<lambda>t. Key t \<notin> otelLibraryKeys"
  let ?promote = "\<lambda>t. Key t \<in> otelLibraryKeys"
  let ?sorted = "sort_key Key (ProcessTags (Process span) @ filter ?promote (Tags span))"
  have nothing_left: "filter ?promote (filter ?keep (Tags span)) = []"
    by (simp add: filter_empty_conv)
  have kept_again: "filter ?keep (filter ?keep (Tags span)) = filter ?keep (Tags span)"
    by simp
  have "sorted (map Key ?sorted)"
    by (rule sorted_sort_key)
  then have sorted_again: "sort_key Key ?sorted = ?sorted"
    by (rule sort_key_id_if_sorted)
  have tags2: "Tags (adjustSpan (adjustSpan span)) = Tags (adjustSpan span)"
    by (simp only: Tags_adjustSpan kept_again)
  have ptags2:
    "ProcessTags (Process (adjustSpan (adjustSpan span))) = ProcessTags (Process (adjustSpan span))"
    by (simp only: ProcessTags_adjustSpan Tags_adjustSpan nothing_left append_Nil2 sorted_again)
  show ?thesis
    using tags2 ptags2
    by (subst (1 2) adjustSpan_eq) (simp add: adjustSpan_eq)
qed

text \<open>
  C1. After the adjuster has run, no tag of a span's \<open>Tags\<close> has one of the five telemetry
  keys, every telemetry tag that was in the span's \<open>Tags\<close> is among the span's process
  tags, the tags that stay are the original tags in their original order (the original
  list with the telemetry tags filtered out), and the process tags are sorted ascending by
  \<open>Key\<close>. The span at position \<open>i\<close> of the result is the adjusted span at position \<open>i\<close>
  of the input.
\<close>

theorem OTelTagAdjuster_promotes_telemetry_tags:
  assumes "i < length (Spans trace)"
  shows
    "length (Spans (fst (OTelTagAdjuster trace))) = length (Spans trace) \<and>
     (\<forall>tag \<in> set (Tags (Spans (fst (OTelTagAdjuster trace)) ! i)). Key tag \<notin> otelLibraryKeys) \<and>
     (\<forall>tag \<in> set (Tags (Spans trace ! i)).
        Key tag \<in> otelLibraryKeys \<longrightarrow>
        tag \<in> set (ProcessTags (Process (Spans (fst (OTelTagAdjuster trace)) ! i)))) \<and>
     Tags (Spans (fst (OTelTagAdjuster trace)) ! i) =
       filter (\<lambda>tag. Key tag \<notin> otelLibraryKeys) (Tags (Spans trace ! i)) \<and>
     subseq (Tags (Spans (fst (OTelTagAdjuster trace)) ! i)) (Tags (Spans trace ! i)) \<and>
     sorted (map Key (ProcessTags (Process (Spans (fst (OTelTagAdjuster trace)) ! i))))"
proof -
  let ?before = "Spans trace ! i"
  have after: "Spans (fst (OTelTagAdjuster trace)) ! i = adjustSpan ?before"
    using assms by (simp add: Spans_OTelTagAdjuster)
  have len: "length (Spans (fst (OTelTagAdjuster trace))) = length (Spans trace)"
    by (simp add: Spans_OTelTagAdjuster)
  have none_left: "\<forall>tag \<in> set (Tags (adjustSpan ?before)). Key tag \<notin> otelLibraryKeys"
    by (simp add: Tags_adjustSpan)
  have promoted:
    "\<forall>tag \<in> set (Tags ?before).
       Key tag \<in> otelLibraryKeys \<longrightarrow> tag \<in> set (ProcessTags (Process (adjustSpan ?before)))"
    by (simp add: ProcessTags_adjustSpan)
  have kept:
    "Tags (adjustSpan ?before) = filter (\<lambda>tag. Key tag \<notin> otelLibraryKeys) (Tags ?before)"
    by (rule Tags_adjustSpan)
  have order: "subseq (Tags (adjustSpan ?before)) (Tags ?before)"
    by (simp only: kept subseq_filter_left)
  have sorted: "sorted (map Key (ProcessTags (Process (adjustSpan ?before))))"
    by (simp only: ProcessTags_adjustSpan sorted_sort_key)
  from len none_left promoted kept order sorted show ?thesis
    by (simp only: after)
qed

theorem OTelTagAdjuster_promotes_telemetry_tags_witness:
  "0 < length (Spans scenario_trace) \<and>
   length (Spans (fst (OTelTagAdjuster scenario_trace))) = 1 \<and>
   Tags (Spans (fst (OTelTagAdjuster scenario_trace)) ! 0) =
     [\<lparr>Key = ''http.method'', Value = StringValue ''GET''\<rparr>,
      \<lparr>Key = ''db.system'', Value = StringValue ''pg''\<rparr>] \<and>
   \<lparr>Key = ''telemetry.sdk.name'', Value = StringValue ''x''\<rparr>
     \<in> set (ProcessTags (Process (Spans (fst (OTelTagAdjuster scenario_trace)) ! 0))) \<and>
   \<lparr>Key = ''telemetry.sdk.version'', Value = StringValue ''1.2''\<rparr>
     \<in> set (ProcessTags (Process (Spans (fst (OTelTagAdjuster scenario_trace)) ! 0))) \<and>
   sorted (map Key (ProcessTags (Process (Spans (fst (OTelTagAdjuster scenario_trace)) ! 0))))"
proof -
  have inside: "0 < length (Spans scenario_trace)"
    by (simp add: scenario_trace_def)
  have len: "length (Spans scenario_trace) = 1"
    by (simp add: scenario_trace_def)
  have telemetry:
    "Key \<lparr>Key = ''telemetry.sdk.name'', Value = StringValue ''x''\<rparr> \<in> otelLibraryKeys"
    "Key \<lparr>Key = ''telemetry.sdk.version'', Value = StringValue ''1.2''\<rparr> \<in> otelLibraryKeys"
    by (simp_all add: otelLibraryKeys_def)
  have present:
    "\<lparr>Key = ''telemetry.sdk.name'', Value = StringValue ''x''\<rparr>
       \<in> set (Tags (Spans scenario_trace ! 0))"
    "\<lparr>Key = ''telemetry.sdk.version'', Value = StringValue ''1.2''\<rparr>
       \<in> set (Tags (Spans scenario_trace ! 0))"
    by (simp_all add: scenario_trace_def scenario_span_def)
  have kept:
    "filter (\<lambda>tag. Key tag \<notin> otelLibraryKeys) (Tags (Spans scenario_trace ! 0)) =
       [\<lparr>Key = ''http.method'', Value = StringValue ''GET''\<rparr>,
        \<lparr>Key = ''db.system'', Value = StringValue ''pg''\<rparr>]"
    by (simp add: scenario_trace_def scenario_span_def otelLibraryKeys_def)
  from OTelTagAdjuster_promotes_telemetry_tags[OF inside] inside len telemetry present kept
  show ?thesis by metis
qed

text \<open>
  C2. The adjuster is idempotent: applied to its own result it returns that result again
  (and again no error).
\<close>

theorem OTelTagAdjuster_idempotent:
  "OTelTagAdjuster (fst (OTelTagAdjuster trace)) = OTelTagAdjuster trace"
  by (simp add: OTelTagAdjuster_def adjustSpan_idem)

text \<open>
  C9. The adjuster returns no error and drops no span: the result has as many spans as
  the input, and the span at each position is the input span at that position in every
  field but \<open>Tags\<close> and the process tags (same trace id, span id, operation name,
  references, flags, start time, duration, logs and service name).
\<close>

theorem OTelTagAdjuster_never_fails_nor_drops:
  "snd (OTelTagAdjuster trace) = None \<and>
   length (Spans (fst (OTelTagAdjuster trace))) = length (Spans trace) \<and>
   map (\<lambda>span. span\<lparr>Tags := [], Process := (Process span)\<lparr>ProcessTags := []\<rparr>\<rparr>)
       (Spans (fst (OTelTagAdjuster trace))) =
   map (\<lambda>span. span\<lparr>Tags := [], Process := (Process span)\<lparr>ProcessTags := []\<rparr>\<rparr>)
       (Spans trace) \<and>
   map (\<lambda>span. (TraceID span, SpanID span)) (Spans (fst (OTelTagAdjuster trace))) =
   map (\<lambda>span. (TraceID span, SpanID span)) (Spans trace)"
  by (simp add: OTelTagAdjuster_def adjustSpan_eq)

text \<open>
  C10. No span-level tag is lost or duplicated. \<^verbatim>\<open>adjustSpanTags\<close> leaves in \<open>Tags\<close> exactly
  the tags whose key is not a telemetry key and appends exactly the others to the process
  tags. For the span at position \<open>i\<close> of a trace, after the adjuster: every value occurs in
  \<open>Tags\<close> as often as before when its key is not a telemetry key and not at all when it
  is; it occurs in the process tags as often as before, plus, when its key is a telemetry
  key, as often as it occurred in \<open>Tags\<close>; and the number of kept tags plus the number of
  promoted tags is the original number of tags.
\<close>

theorem OTelTagAdjuster_keeps_every_tag:
  assumes "i < length (Spans trace)"
  shows
    "Tags (adjustSpanTags (Spans trace ! i)) =
       filter (\<lambda>tag. Key tag \<notin> otelLibraryKeys) (Tags (Spans trace ! i)) \<and>
     ProcessTags (Process (adjustSpanTags (Spans trace ! i))) =
       ProcessTags (Process (Spans trace ! i)) @
       filter (\<lambda>tag. Key tag \<in> otelLibraryKeys) (Tags (Spans trace ! i)) \<and>
     (\<forall>tag. count (mset (Tags (Spans (fst (OTelTagAdjuster trace)) ! i))) tag =
        (if Key tag \<in> otelLibraryKeys then 0 else count (mset (Tags (Spans trace ! i))) tag)) \<and>
     (\<forall>tag. count (mset (ProcessTags (Process (Spans (fst (OTelTagAdjuster trace)) ! i)))) tag =
        count (mset (ProcessTags (Process (Spans trace ! i)))) tag +
        (if Key tag \<in> otelLibraryKeys then count (mset (Tags (Spans trace ! i))) tag else 0)) \<and>
     mset (Tags (Spans (fst (OTelTagAdjuster trace)) ! i)) +
       mset (ProcessTags (Process (Spans (fst (OTelTagAdjuster trace)) ! i))) =
     mset (Tags (Spans trace ! i)) + mset (ProcessTags (Process (Spans trace ! i))) \<and>
     length (Tags (Spans (fst (OTelTagAdjuster trace)) ! i)) +
       length (filter (\<lambda>tag. Key tag \<in> otelLibraryKeys) (Tags (Spans trace ! i))) =
     length (Tags (Spans trace ! i))"
proof -
  let ?before = "Spans trace ! i"
  let ?keep = "\<lambda>tag. Key tag \<notin> otelLibraryKeys"
  let ?promote = "\<lambda>tag. Key tag \<in> otelLibraryKeys"
  have after: "Spans (fst (OTelTagAdjuster trace)) ! i = adjustSpan ?before"
    using assms by (simp add: Spans_OTelTagAdjuster)
  have tags: "Tags (adjustSpanTags ?before) = filter ?keep (Tags ?before)"
    by (simp add: adjustSpanTags_eq)
  have ptags:
    "ProcessTags (Process (adjustSpanTags ?before)) =
       ProcessTags (Process ?before) @ filter ?promote (Tags ?before)"
    by (simp add: adjustSpanTags_eq)
  have count_tags:
    "\<forall>tag. count (mset (Tags (adjustSpan ?before))) tag =
       (if Key tag \<in> otelLibraryKeys then 0 else count (mset (Tags ?before)) tag)"
    by (simp add: Tags_adjustSpan)
  have count_ptags:
    "\<forall>tag. count (mset (ProcessTags (Process (adjustSpan ?before)))) tag =
       count (mset (ProcessTags (Process ?before))) tag +
       (if Key tag \<in> otelLibraryKeys then count (mset (Tags ?before)) tag else 0)"
    by (simp add: ProcessTags_adjustSpan)
  have "mset (filter ?keep (Tags ?before)) + mset (filter ?promote (Tags ?before)) =
          mset (Tags ?before)"
    by (induction "Tags ?before") simp_all
  then have total:
    "mset (Tags (adjustSpan ?before)) + mset (ProcessTags (Process (adjustSpan ?before))) =
       mset (Tags ?before) + mset (ProcessTags (Process ?before))"
    by (simp add: Tags_adjustSpan ProcessTags_adjustSpan ac_simps)
  have "length (filter ?keep (Tags ?before)) + length (filter ?promote (Tags ?before)) =
          length (Tags ?before)"
    by (rule sum_length_filter_compl[of "\<lambda>tag. Key tag \<notin> otelLibraryKeys", simplified])
  then have lengths:
    "length (Tags (adjustSpan ?before)) + length (filter ?promote (Tags ?before)) =
       length (Tags ?before)"
    by (simp only: Tags_adjustSpan)
  from tags ptags count_tags count_ptags total lengths show ?thesis
    unfolding after by (intro conjI)
qed

theorem OTelTagAdjuster_keeps_every_tag_witness:
  "0 < length (Spans scenario_trace) \<and>
   Tags (adjustSpanTags (Spans scenario_trace ! 0)) =
     [\<lparr>Key = ''http.method'', Value = StringValue ''GET''\<rparr>,
      \<lparr>Key = ''db.system'', Value = StringValue ''pg''\<rparr>] \<and>
   ProcessTags (Process (adjustSpanTags (Spans scenario_trace ! 0))) =
     [\<lparr>Key = ''telemetry.sdk.name'', Value = StringValue ''x''\<rparr>,
      \<lparr>Key = ''telemetry.sdk.version'', Value = StringValue ''1.2''\<rparr>] \<and>
   length (Tags (Spans (fst (OTelTagAdjuster scenario_trace)) ! 0)) + 2 = 4"
proof -
  have inside: "0 < length (Spans scenario_trace)"
    by (simp add: scenario_trace_def)
  from OTelTagAdjuster_keeps_every_tag[OF inside] inside show ?thesis
    by (simp add: scenario_trace_def scenario_span_def otelLibraryKeys_def)
qed

section \<open>Properties of CipherSuiteNamesToIDs\<close>

lemma fold_ciphers_dom:
  "dom (fold (\<lambda>suite acceptedCiphers. acceptedCiphers(Name suite \<mapsto> ID suite)) suites m) =
     dom m \<union> Name ` set suites"
  by (induction suites arbitrary: m) auto

lemma allCiphers_dom: "dom (allCiphers suites) = Name ` set suites"
  by (simp add: allCiphers_def fold_ciphers_dom)

lemma fold_ciphers_Some:
  "fold (\<lambda>suite acceptedCiphers. acceptedCiphers(Name suite \<mapsto> ID suite)) suites m name = Some v \<Longrightarrow>
     m name = Some v \<or> (\<exists>suite \<in> set suites. Name suite = name \<and> ID suite = v)"
proof (induction suites arbitrary: m)
  case Nil
  then show ?case by simp
next
  case (Cons suite suites)
  from Cons.IH[of "m(Name suite \<mapsto> ID suite)"] Cons.prems show ?case
    by (auto split: if_splits)
qed

lemma allCiphers_Some:
  "allCiphers suites name = Some v \<Longrightarrow> \<exists>suite \<in> set suites. Name suite = name \<and> ID suite = v"
  using fold_ciphers_Some[of suites Map.empty name v] by (simp add: allCiphers_def)

lemma cipherNamesLoop_recognized:
  "\<forall>name \<in> set cipherNames. name \<in> dom possibleCiphers \<Longrightarrow>
     cipherNamesLoop possibleCiphers cipherNames ciphersIDs =
       (if cipherNames = [] then ciphersIDs
        else Some ((case ciphersIDs of None \<Rightarrow> [] | Some ids \<Rightarrow> ids) @
                   map (\<lambda>name. the (possibleCiphers name)) cipherNames),
        None)"
proof (induction cipherNames arbitrary: ciphersIDs)
  case Nil
  then show ?case by simp
next
  case (Cons cipher rest)
  then obtain intValue where found: "possibleCiphers cipher = Some intValue"
    by auto
  from Cons.prems have "\<forall>name \<in> set rest. name \<in> dom possibleCiphers"
    by simp
  from Cons.IH[OF this, of "go_append ciphersIDs intValue"] found show ?case
    by (cases ciphersIDs) (simp_all add: go_append_def)
qed

lemma cipherNamesLoop_unrecognized:
  "List.find (\<lambda>name. possibleCiphers name = None) cipherNames = Some bad \<Longrightarrow>
     cipherNamesLoop possibleCiphers cipherNames ciphersIDs = (None, Some (CipherSuiteNotSupported bad))"
proof (induction cipherNames arbitrary: ciphersIDs)
  case Nil
  then show ?case by simp
next
  case (Cons cipher rest)
  then show ?case
    by (cases "possibleCiphers cipher") (auto split: if_splits)
qed

text \<open>
  C8. \<^verbatim>\<open>CipherSuiteNamesToIDs\<close>, for any table of suites. When every name of the input is
  the name of a suite of the table, the result is the identifiers that \<^verbatim>\<open>allCiphers\<close> gives
  for the names, in the order of the input (each the identifier of a suite of that name),
  and no error; the slice is \<^verbatim>\<open>nil\<close> when the input is empty. When some name is not in the
  table, the slice is \<^verbatim>\<open>nil\<close> and the error names such a name. For the empty input the
  result is \<^verbatim>\<open>nil\<close> and no error.
\<close>

theorem CipherSuiteNamesToIDs_result:
  "((\<forall>name \<in> set cipherNames. name \<in> Name ` set suites) \<longrightarrow>
      CipherSuiteNamesToIDs suites cipherNames =
        (if cipherNames = [] then None
         else Some (map (\<lambda>name. the (allCiphers suites name)) cipherNames), None) \<and>
      (\<forall>name \<in> set cipherNames.
         \<exists>suite \<in> set suites. Name suite = name \<and> ID suite = the (allCiphers suites name))) \<and>
   ((\<exists>name \<in> set cipherNames. name \<notin> Name ` set suites) \<longrightarrow>
      fst (CipherSuiteNamesToIDs suites cipherNames) = None \<and>
      (\<exists>bad \<in> set cipherNames. bad \<notin> Name ` set suites \<and>
         snd (CipherSuiteNamesToIDs suites cipherNames) = Some (CipherSuiteNotSupported bad))) \<and>
   CipherSuiteNamesToIDs suites [] = (None, None)"
proof (intro conjI impI)
  assume all: "\<forall>name \<in> set cipherNames. name \<in> Name ` set suites"
  then have "\<forall>name \<in> set cipherNames. name \<in> dom (allCiphers suites)"
    by (simp only: allCiphers_dom)
  from cipherNamesLoop_recognized[OF this, of None]
  show "CipherSuiteNamesToIDs suites cipherNames =
        (if cipherNames = [] then None
         else Some (map (\<lambda>name. the (allCiphers suites name)) cipherNames), None)"
    by (simp add: CipherSuiteNamesToIDs_def)
  show "\<forall>name \<in> set cipherNames.
         \<exists>suite \<in> set suites. Name suite = name \<and> ID suite = the (allCiphers suites name)"
  proof
    fix name assume "name \<in> set cipherNames"
    with all have "name \<in> dom (allCiphers suites)"
      by (simp only: allCiphers_dom)
    then obtain v where v: "allCiphers suites name = Some v" by auto
    from allCiphers_Some[OF v] v
    show "\<exists>suite \<in> set suites. Name suite = name \<and> ID suite = the (allCiphers suites name)"
      by simp
  qed
next
  assume "\<exists>name \<in> set cipherNames. name \<notin> Name ` set suites"
  then have "\<exists>name \<in> set cipherNames. allCiphers suites name = None"
    using allCiphers_dom[of suites] by (metis domIff)
  then obtain bad where
    bad: "List.find (\<lambda>name. allCiphers suites name = None) cipherNames = Some bad"
    by (cases "List.find (\<lambda>name. allCiphers suites name = None) cipherNames")
       (auto simp: find_None_iff)
  then have bad_in: "bad \<in> set cipherNames" and bad_none: "allCiphers suites bad = None"
    by (auto simp: find_Some_iff)
  from bad_none have unknown: "bad \<notin> Name ` set suites"
    using allCiphers_dom[of suites] by (metis domIff)
  from cipherNamesLoop_unrecognized[OF bad, of None]
  have run: "CipherSuiteNamesToIDs suites cipherNames = (None, Some (CipherSuiteNotSupported bad))"
    by (simp add: CipherSuiteNamesToIDs_def)
  from run show "fst (CipherSuiteNamesToIDs suites cipherNames) = None"
    by simp
  from run bad_in unknown
  show "\<exists>bad \<in> set cipherNames. bad \<notin> Name ` set suites \<and>
         snd (CipherSuiteNamesToIDs suites cipherNames) = Some (CipherSuiteNotSupported bad)"
    by auto
next
  show "CipherSuiteNamesToIDs suites [] = (None, None)"
    by (simp add: CipherSuiteNamesToIDs_def)
qed

theorem CipherSuiteNamesToIDs_result_witness:
  "CipherSuiteNamesToIDs sample_suites [''TLS_AES_128_GCM_SHA256'', ''TLS_AES_256_GCM_SHA384''] =
     (Some [0x1301, 0x1302], None) \<and>
   CipherSuiteNamesToIDs sample_suites [''TLS_INVALID''] =
     (None, Some (CipherSuiteNotSupported ''TLS_INVALID'')) \<and>
   CipherSuiteNamesToIDs sample_suites [] = (None, None)"
proof -
  let ?good = "[''TLS_AES_128_GCM_SHA256'', ''TLS_AES_256_GCM_SHA384'']"
  let ?bad = "[''TLS_INVALID'']"
  have recognized: "\<forall>name \<in> set ?good. name \<in> Name ` set sample_suites"
    by (simp add: sample_suites_def)
  have unrecognized: "\<exists>name \<in> set ?bad. name \<notin> Name ` set sample_suites"
    by (simp add: sample_suites_def)
  have ids: "map (\<lambda>name. the (allCiphers sample_suites name)) ?good = [0x1301, 0x1302]"
    by (simp add: allCiphers_def sample_suites_def)
  from CipherSuiteNamesToIDs_result[of ?good sample_suites] recognized ids
  have good: "CipherSuiteNamesToIDs sample_suites ?good = (Some [0x1301, 0x1302], None)"
    by simp
  from CipherSuiteNamesToIDs_result[of ?bad sample_suites] unrecognized
  have bad: "CipherSuiteNamesToIDs sample_suites ?bad = (None, Some (CipherSuiteNotSupported ''TLS_INVALID''))"
    by (simp add: prod_eq_iff)
  from CipherSuiteNamesToIDs_result[of "[]" sample_suites] good bad show ?thesis
    by simp
qed

section \<open>Properties of waitForCondition\<close>

lemma world_at_step:
  "world_at predicate sleep (sleep (snd (predicate w))) j = world_at predicate sleep w (Suc j)"
  by (induction j) (simp_all add: world_at_def)

lemma waitLoop_rounds:
  "i \<le> iterations \<Longrightarrow> waitLoop predicate sleep i w events = (found, w', events') \<Longrightarrow>
     \<exists>k \<le> iterations - i.
       events' = events @ concat (replicate k [PredicateCall False, Sleep 1]) @ [PredicateCall found] \<and>
       (\<forall>j < k. \<not> fst (predicate (world_at predicate sleep w j))) \<and>
       found = fst (predicate (world_at predicate sleep w k)) \<and>
       w' = snd (predicate (world_at predicate sleep w k)) \<and>
       (found \<or> k = iterations - i)"
proof (induction predicate sleep i w events arbitrary: found w' events' rule: waitLoop.induct)
  case (1 predicate sleep i w events)
  obtain ok v where call: "predicate w = (ok, v)"
    by (cases "predicate w")
  show ?case
  proof (cases "i < iterations")
    case False
    with "1.prems" call have "found = ok" "w' = v" "events' = events @ [PredicateCall ok]"
      by auto
    with call False show ?thesis
      by (intro exI[of _ 0]) (simp add: world_at_def)
  next
    case inside: True
    show ?thesis
    proof (cases ok)
      case True
      with "1.prems" call inside
      have "found = True" "w' = v" "events' = events @ [PredicateCall True]"
        by auto
      with call True show ?thesis
        by (intro exI[of _ 0]) (simp add: world_at_def)
    next
      case False
      with "1.prems" call inside have
        run: "waitLoop predicate sleep (i + 1) (sleep v) (events @ [PredicateCall False, Sleep 1]) =
                (found, w', events')"
        by simp
      from inside have "i + 1 \<le> iterations" by simp
      from "1.IH"[OF inside call[symmetric] False this run]
      obtain k where k: "k \<le> iterations - (i + 1)"
        and ev: "events' = (events @ [PredicateCall False, Sleep 1]) @
                   concat (replicate k [PredicateCall False, Sleep 1]) @ [PredicateCall found]"
        and before: "\<forall>j < k. \<not> fst (predicate (world_at predicate sleep (sleep v) j))"
        and at: "found = fst (predicate (world_at predicate sleep (sleep v) k))"
        and world: "w' = snd (predicate (world_at predicate sleep (sleep v) k))"
        and last: "found \<or> k = iterations - (i + 1)"
        by blast
      have shift: "\<And>j. world_at predicate sleep (sleep v) j = world_at predicate sleep w (Suc j)"
        using world_at_step[of predicate sleep w] call by simp
      have first: "\<not> fst (predicate (world_at predicate sleep w 0))"
        using call False by (simp add: world_at_def)
      have all_before: "\<forall>j < Suc k. \<not> fst (predicate (world_at predicate sleep w j))"
      proof (intro allI impI)
        fix j assume "j < Suc k"
        then show "\<not> fst (predicate (world_at predicate sleep w j))"
          using first before shift by (cases j) auto
      qed
      from k inside have "Suc k \<le> iterations - i" by simp
      moreover from ev have
        "events' = events @ concat (replicate (Suc k) [PredicateCall False, Sleep 1]) @
                   [PredicateCall found]"
        by simp
      moreover note all_before
      moreover from at shift have "found = fst (predicate (world_at predicate sleep w (Suc k)))"
        by simp
      moreover from world shift have "w' = snd (predicate (world_at predicate sleep w (Suc k)))"
        by simp
      moreover from last inside have "found \<or> Suc k = iterations - i"
        by auto
      ultimately show ?thesis
        by (intro exI[of _ "Suc k"]) blast
    qed
  qed
qed

lemma waitForCondition_first_call:
  "fst (predicate w) \<Longrightarrow> fst (waitForCondition predicate sleep w)"
  by (cases "predicate w") (simp add: waitForCondition_def iterations_def)

lemma sleeps_rounds:
  "sleeps (concat (replicate k [PredicateCall False, Sleep 1]) @ [PredicateCall found]) = k"
  by (induction k) (simp_all add: sleeps_def)

lemma call_after_sleep:
  "n < length (concat (replicate k [PredicateCall False, Sleep 1]) @ [PredicateCall found]) \<Longrightarrow>
   (concat (replicate k [PredicateCall False, Sleep 1]) @ [PredicateCall found]) ! n = Sleep 1 \<Longrightarrow>
     Suc n < length (concat (replicate k [PredicateCall False, Sleep 1]) @ [PredicateCall found]) \<and>
     (\<exists>b. (concat (replicate k [PredicateCall False, Sleep 1]) @ [PredicateCall found]) ! Suc n =
            PredicateCall b)"
proof (induction k arbitrary: n)
  case 0
  then show ?case by simp
next
  case (Suc k)
  let ?rest = "concat (replicate k [PredicateCall False, Sleep 1]) @ [PredicateCall found]"
  have whole: "concat (replicate (Suc k) [PredicateCall False, Sleep 1]) @ [PredicateCall found] =
                 PredicateCall False # Sleep 1 # ?rest"
    by simp
  have head: "\<exists>b. ?rest ! 0 = PredicateCall b"
    by (cases k) auto
  show ?case
  proof (cases n)
    case 0
    with Suc.prems show ?thesis by simp
  next
    case (Suc m)
    show ?thesis
    proof (cases m)
      case 0
      with Suc head show ?thesis
        by (simp only: whole) simp
    next
      case (Suc l)
      with \<open>n = Suc m\<close> Suc.prems have "l < length ?rest" "?rest ! l = Sleep 1"
        by simp_all
      from Suc.IH[OF this] Suc \<open>n = Suc m\<close> show ?thesis
        by (simp only: whole) simp
    qed
  qed
qed

text \<open>
  C4. \<^verbatim>\<open>waitForCondition\<close> returns what its last call of the predicate returned. Before
  that call it has made only calls that returned false, each followed by a sleep of one
  second, at most 100 of them; so every sleep is followed by a call of the predicate, and
  the call after the last sleep is the final one. The calls are made on the successive
  states of the world. It returns true exactly when one of the at most 101 calls returns
  true, that call is the last event, and it returns false only after 100 sleeps.
\<close>

theorem waitForCondition_polls:
  assumes "waitForCondition predicate sleep w = (found, w', events)"
  shows
    "sleeps events \<le> 100 \<and>
     events =
       concat (replicate (sleeps events) [PredicateCall False, Sleep 1]) @ [PredicateCall found] \<and>
     (\<forall>n < length events. events ! n = Sleep 1 \<longrightarrow>
        Suc n < length events \<and> (\<exists>b. events ! Suc n = PredicateCall b)) \<and>
     last events = PredicateCall found \<and>
     (\<forall>j < sleeps events. \<not> fst (predicate (world_at predicate sleep w j))) \<and>
     found = fst (predicate (world_at predicate sleep w (sleeps events))) \<and>
     (\<not> found \<longrightarrow> sleeps events = 100) \<and>
     (found \<longleftrightarrow> (\<exists>j \<le> 100. fst (predicate (world_at predicate sleep w j)))) \<and>
     (found \<longleftrightarrow> PredicateCall True \<in> set events)"
proof -
  from assms have "waitLoop predicate sleep 0 w [] = (found, w', events)"
    by (simp add: waitForCondition_def)
  from waitLoop_rounds[OF _ this]
  obtain k where k: "k \<le> iterations"
    and ev: "events = concat (replicate k [PredicateCall False, Sleep 1]) @ [PredicateCall found]"
    and before: "\<forall>j < k. \<not> fst (predicate (world_at predicate sleep w j))"
    and at: "found = fst (predicate (world_at predicate sleep w k))"
    and full: "found \<or> k = iterations"
    by auto
  have count: "sleeps events = k"
    by (simp only: ev sleeps_rounds)
  have bound: "sleeps events \<le> 100"
    using k count by (simp add: iterations_def)
  have shape: "events =
      concat (replicate (sleeps events) [PredicateCall False, Sleep 1]) @ [PredicateCall found]"
    using ev count by simp
  have after_sleep: "\<forall>n < length events. events ! n = Sleep 1 \<longrightarrow>
        Suc n < length events \<and> (\<exists>b. events ! Suc n = PredicateCall b)"
    using call_after_sleep[of _ k found] by (simp only: ev) blast
  have final: "last events = PredicateCall found"
    by (subst ev) simp
  have earlier: "\<forall>j < sleeps events. \<not> fst (predicate (world_at predicate sleep w j))"
    using before count by simp
  have now: "found = fst (predicate (world_at predicate sleep w (sleeps events)))"
    using at count by simp
  have exhausted: "\<not> found \<longrightarrow> sleeps events = 100"
    using full count by (auto simp: iterations_def)
  have some_call: "found \<longleftrightarrow> (\<exists>j \<le> 100. fst (predicate (world_at predicate sleep w j)))"
  proof
    assume found
    with at k show "\<exists>j \<le> 100. fst (predicate (world_at predicate sleep w j))"
      by (auto simp: iterations_def)
  next
    assume "\<exists>j \<le> 100. fst (predicate (world_at predicate sleep w j))"
    then obtain j where j: "j \<le> 100" "fst (predicate (world_at predicate sleep w j))"
      by blast
    show found
    proof (rule ccontr)
      assume "\<not> found"
      with full have "k = 100" by (simp add: iterations_def)
      with j before at \<open>\<not> found\<close> show False
        by (cases "j = 100") auto
    qed
  qed
  have "set (concat (replicate k [PredicateCall False, Sleep 1])) \<subseteq> {PredicateCall False, Sleep 1}"
    by (induction k) auto
  then have logged: "found \<longleftrightarrow> PredicateCall True \<in> set events"
    by (subst ev) auto
  from bound shape after_sleep final earlier now exhausted some_call logged
  show ?thesis by (intro conjI)
qed

theorem waitForCondition_polls_witness:
  "waitForCondition ready_after_three Suc 0 =
     (True, 3,
      [PredicateCall False, Sleep 1, PredicateCall False, Sleep 1, PredicateCall False, Sleep 1,
       PredicateCall True]) \<and>
   sleeps
     [PredicateCall False, Sleep 1, PredicateCall False, Sleep 1, PredicateCall False, Sleep 1,
      PredicateCall True] = 3 \<and>
   fst (ready_after_three (world_at ready_after_three Suc 0 3)) \<and>
   \<not> fst (ready_after_three (world_at ready_after_three Suc 0 2)) \<and>
   waitForCondition never_ready Suc 0 =
     (False, 100, concat (replicate 100 [PredicateCall False, Sleep 1]) @ [PredicateCall False]) \<and>
   sleeps (concat (replicate 100 [PredicateCall False, Sleep 1]) @ [PredicateCall False]) = 100"
proof -
  let ?events =
    "[PredicateCall False, Sleep 1, PredicateCall False, Sleep 1, PredicateCall False, Sleep 1,
      PredicateCall True]"
  have ready: "waitForCondition ready_after_three Suc 0 = (True, 3, ?events)"
    by (simp add: waitForCondition_def ready_after_three_def iterations_def)
  have three: "sleeps ?events = 3"
    by (simp add: sleeps_def)
  have never: "waitForCondition never_ready Suc 0 =
     (False, 100, concat (replicate 100 [PredicateCall False, Sleep 1]) @ [PredicateCall False])"
    by code_simp
  note polled = waitForCondition_polls[OF ready]
  from polled
  have "True = fst (ready_after_three (world_at ready_after_three Suc 0 (sleeps ?events)))"
    by blast
  then have at_three: "fst (ready_after_three (world_at ready_after_three Suc 0 3))"
    unfolding three by simp
  from polled
  have "\<forall>j < sleeps ?events. \<not> fst (ready_after_three (world_at ready_after_three Suc 0 j))"
    by blast
  then have at_two: "\<not> fst (ready_after_three (world_at ready_after_three Suc 0 2))"
    unfolding three by simp
  from waitForCondition_polls[OF never]
  have "\<not> False \<longrightarrow>
    sleeps (concat (replicate 100 [PredicateCall False, Sleep 1]) @ [PredicateCall False]) = 100"
    by blast
  then have hundred:
    "sleeps (concat (replicate 100 [PredicateCall False, Sleep 1]) @ [PredicateCall False]) = 100"
    by simp
  from ready three at_three at_two never hundred show ?thesis
    by (intro conjI)
qed

section \<open>Properties of the large trace\<close>

lemma largeTraceLoop_eq:
  "i \<le> 10008 \<Longrightarrow>
     largeTraceLoop span i spans =
       spans @ map (\<lambda>k. span\<lparr>SpanID := of_nat k, StartTime := StartTime span + time_Second * int (k + 1)\<rparr>)
                   [i..<10008]"
proof (induction span i spans rule: largeTraceLoop.induct)
  case (1 span i spans)
  show ?case
  proof (cases "i < 10008")
    case False
    with "1.prems" show ?thesis
      by (subst largeTraceLoop.simps) simp
  next
    case True
    then have "[i..<10008] = i # [i + 1..<10008]"
      by (simp add: upt_conv_Cons del: upt_rec_numeral)
    moreover from True have "i + 1 \<le> 10008" by simp
    ultimately show ?thesis
      using "1.IH"[OF True refl refl refl] True
      by (subst largeTraceLoop.simps) (simp add: Let_def del: upt_rec_numeral)
  qed
qed

lemma largeTraceSpans_eq:
  "largeTraceSpans span =
     span # map (\<lambda>k. span\<lparr>SpanID := of_nat k, StartTime := StartTime span + time_Second * int (k + 1)\<rparr>)
                [1..<10008]"
  by (simp add: largeTraceSpans_def largeTraceLoop_eq del: upt_rec_numeral)

lemma largeTrace_length: "length (largeTraceSpans span) = 10008"
  by (simp add: largeTraceSpans_eq del: upt_rec_numeral)

lemma largeTrace_first: "largeTraceSpans span ! 0 = span"
  by (simp add: largeTraceSpans_eq del: upt_rec_numeral)

lemma largeTrace_nth:
  assumes "1 \<le> i" "i < 10008"
  shows "largeTraceSpans span ! i =
           span\<lparr>SpanID := of_nat i, StartTime := StartTime span + time_Second * int (i + 1)\<rparr>"
proof -
  from assms obtain k where k: "i = Suc k" "k < 10007"
    by (cases i) auto
  then have "[1..<10008] ! k = 1 + k"
    by (intro nth_upt) simp
  with k show ?thesis
    by (simp add: largeTraceSpans_eq del: upt_rec_numeral)
qed

lemma writeTrace_memory: "writeTrace memory_WriteSpan st spans = Inr (st @ spans)"
  by (induction spans arbitrary: st) (simp_all add: memory_WriteSpan_def)

lemma largeTrace_TraceID:
  "\<forall>s \<in> set (largeTraceSpans span). TraceID s = TraceID span"
  by (auto simp: largeTraceSpans_eq simp del: upt_rec_numeral)

lemma memory_GetTrace_all:
  assumes "spans \<noteq> []" "\<forall>s \<in> set spans. TraceID s = traceID"
  shows "memory_GetTrace spans traceID = Inr \<lparr>Spans = spans\<rparr>"
proof -
  from assms(2) have "filter (\<lambda>s. TraceID s = traceID) spans = spans"
    by (simp add: filter_id_conv)
  with assms(1) show ?thesis
    by (cases spans) (simp_all add: memory_GetTrace_def)
qed

lemma testGetLargeSpan_memory:
  assumes "Spans fixture = span # rest"
  shows "testGetLargeSpan memory_WriteSpan memory_GetTrace Inr sleep fixture [] = Inr True"
proof -
  let ?spans = "largeTraceSpans span"
  let ?expected = "fixture\<lparr>Spans := ?spans\<rparr>"
  have written: "loadParseAndWriteLargeTrace memory_WriteSpan fixture [] = Inr (?expected, ?spans)"
    using assms by (simp add: loadParseAndWriteLargeTrace_def writeTrace_memory)
  obtain tail where head: "?spans = span # tail"
    using largeTraceSpans_eq by blast
  then have nonempty: "?spans \<noteq> []"
    by simp
  have read: "memory_GetTrace ?spans (TraceID span) = Inr \<lparr>Spans = ?spans\<rparr>"
    using nonempty largeTrace_TraceID by (rule memory_GetTrace_all)
  have "fst (largeSpanFound memory_GetTrace (TraceID span) ?expected ?spans)"
    unfolding largeSpanFound_def read by simp
  then have found:
    "fst (waitForCondition (largeSpanFound memory_GetTrace (TraceID span) ?expected) sleep ?spans)"
    by (rule waitForCondition_first_call)
  from written found head show ?thesis
    by (simp add: testGetLargeSpan_def)
qed

text \<open>
  C5. The large trace of the harness has 10008 spans. The span at position 0
  is the first span of the fixture itself, with its own span id and start time; for every
  \<open>i\<close> from 1 to 10007 the span at position \<open>i\<close> is the first span of the fixture with
  \<open>SpanID\<close> set to \<open>i\<close> and \<open>StartTime\<close> moved forward by \<open>i + 1\<close> seconds. These spans
  are handed to the writer, in this order, and the trace is the one expected; the test
  polls the reader with the trace id of the first span until it returns, without error,
  a trace of 10008 spans.
\<close>

theorem largeTrace_spans:
  assumes "Spans fixture = span # rest"
  shows
    "length (largeTraceSpans span) = 10008 \<and>
     largeTraceSpans span ! 0 = span \<and>
     (\<forall>i. 1 \<le> i \<and> i < 10008 \<longrightarrow>
        largeTraceSpans span ! i =
          span\<lparr>SpanID := of_nat i, StartTime := StartTime span + int (i + 1) * time_Second\<rparr>) \<and>
     loadParseAndWriteLargeTrace WriteSpan fixture st =
       (case writeTrace WriteSpan st (largeTraceSpans span) of
          Inl err \<Rightarrow> Inl (RequireNoError err)
        | Inr st' \<Rightarrow> Inr (fixture\<lparr>Spans := largeTraceSpans span\<rparr>, st')) \<and>
     (fst (largeSpanFound GetTrace traceID (fixture\<lparr>Spans := largeTraceSpans span\<rparr>) w) \<longleftrightarrow>
        (\<exists>actual. GetTrace w traceID = Inr actual \<and> length (Spans actual) = 10008))"
proof -
  have clones: "\<forall>i. 1 \<le> i \<and> i < 10008 \<longrightarrow>
        largeTraceSpans span ! i =
          span\<lparr>SpanID := of_nat i, StartTime := StartTime span + int (i + 1) * time_Second\<rparr>"
  proof (intro allI impI)
    fix i :: nat
    assume "1 \<le> i \<and> i < 10008"
    then have "largeTraceSpans span ! i =
        span\<lparr>SpanID := of_nat i, StartTime := StartTime span + time_Second * int (i + 1)\<rparr>"
      by (intro largeTrace_nth) simp_all
    then show "largeTraceSpans span ! i =
        span\<lparr>SpanID := of_nat i, StartTime := StartTime span + int (i + 1) * time_Second\<rparr>"
      by (simp only: mult.commute)
  qed
  have written: "loadParseAndWriteLargeTrace WriteSpan fixture st =
       (case writeTrace WriteSpan st (largeTraceSpans span) of
          Inl err \<Rightarrow> Inl (RequireNoError err)
        | Inr st' \<Rightarrow> Inr (fixture\<lparr>Spans := largeTraceSpans span\<rparr>, st'))"
    using assms by (simp add: loadParseAndWriteLargeTrace_def)
  have polled:
    "fst (largeSpanFound GetTrace traceID (fixture\<lparr>Spans := largeTraceSpans span\<rparr>) w) \<longleftrightarrow>
        (\<exists>actual. GetTrace w traceID = Inr actual \<and> length (Spans actual) = 10008)"
    by (cases "GetTrace w traceID") (simp_all add: largeSpanFound_def largeTrace_length)
  from largeTrace_length largeTrace_first clones written polled show ?thesis
    by (intro conjI)
qed

theorem largeTrace_spans_witness:
  "Spans scenario_trace = scenario_span # [] \<and>
   length (largeTraceSpans scenario_span) = 10008 \<and>
   largeTraceSpans scenario_span ! 0 = scenario_span \<and>
   largeTraceSpans scenario_span ! 1 =
     scenario_span\<lparr>SpanID := 1, StartTime := 2000000000\<rparr> \<and>
   largeTraceSpans scenario_span ! 10007 =
     scenario_span\<lparr>SpanID := 10007, StartTime := 10008000000000\<rparr> \<and>
   loadParseAndWriteLargeTrace memory_WriteSpan scenario_trace [] =
     Inr (scenario_trace\<lparr>Spans := largeTraceSpans scenario_span\<rparr>,
          largeTraceSpans scenario_span) \<and>
   testGetLargeSpan memory_WriteSpan memory_GetTrace Inr Fun.id scenario_trace [] = Inr True"
proof -
  have fixture: "Spans scenario_trace = scenario_span # []"
    by (simp add: scenario_trace_def)
  note large =
    largeTrace_spans[where WriteSpan = memory_WriteSpan and st = "[]" and GetTrace = memory_GetTrace
      and traceID = "TraceID scenario_span" and w = "[]", OF fixture]
  have start: "StartTime scenario_span = 0"
    by (simp add: scenario_span_def)
  note clones = large[THEN conjunct2, THEN conjunct2, THEN conjunct1, rule_format]
  have "largeTraceSpans scenario_span ! 1 =
       scenario_span\<lparr>SpanID := of_nat 1, StartTime := StartTime scenario_span + int (1 + 1) * time_Second\<rparr>"
    by (rule clones) simp
  then have second: "largeTraceSpans scenario_span ! 1 =
       scenario_span\<lparr>SpanID := 1, StartTime := 2000000000\<rparr>"
    by (simp add: start time_Second_def)
  have "largeTraceSpans scenario_span ! 10007 =
       scenario_span\<lparr>SpanID := of_nat 10007,
                      StartTime := StartTime scenario_span + int (10007 + 1) * time_Second\<rparr>"
    by (rule clones) simp
  then have last: "largeTraceSpans scenario_span ! 10007 =
       scenario_span\<lparr>SpanID := 10007, StartTime := 10008000000000\<rparr>"
    by (simp add: start time_Second_def)
  from large have written: "loadParseAndWriteLargeTrace memory_WriteSpan scenario_trace [] =
     Inr (scenario_trace\<lparr>Spans := largeTraceSpans scenario_span\<rparr>,
          largeTraceSpans scenario_span)"
    by (simp add: writeTrace_memory)
  from large have len: "length (largeTraceSpans scenario_span) = 10008"
    and first: "largeTraceSpans scenario_span ! 0 = scenario_span"
    by blast+
  from fixture len first second last written testGetLargeSpan_memory[OF fixture, of Fun.id]
  show ?thesis by (intro conjI)
qed

text \<open>
  C5 with a shift of \<open>i\<close> seconds for the span at position \<open>i\<close>, as the spec has it,
  fails at \<open>i = 1\<close>: that span starts two seconds after the first one.
\<close>

theorem largeTrace_shift_counterexample:
  "largeTraceSpans scenario_span ! 1 \<noteq>
     scenario_span\<lparr>SpanID := of_nat 1, StartTime := StartTime scenario_span + int 1 * time_Second\<rparr> \<and>
   StartTime (largeTraceSpans scenario_span ! 1) =
     StartTime scenario_span + 2 * time_Second"
proof -
  have "largeTraceSpans scenario_span ! 1 =
      scenario_span\<lparr>SpanID := of_nat 1,
                     StartTime := StartTime scenario_span + time_Second * int (1 + 1)\<rparr>"
    by (rule largeTrace_nth) simp_all
  then have shifted: "StartTime (largeTraceSpans scenario_span ! 1) =
     StartTime scenario_span + 2 * time_Second"
    by simp
  then have "StartTime (largeTraceSpans scenario_span ! 1) \<noteq>
     StartTime (scenario_span\<lparr>SpanID := of_nat 1,
                               StartTime := StartTime scenario_span + int 1 * time_Second\<rparr>)"
    by (simp add: time_Second_def)
  then have "largeTraceSpans scenario_span ! 1 \<noteq>
     scenario_span\<lparr>SpanID := of_nat 1, StartTime := StartTime scenario_span + int 1 * time_Second\<rparr>"
    by metis
  with shifted show ?thesis by (intro conjI)
qed

section \<open>Properties of the sampling store\<close>

lemma GetLatestProbabilities_Insert:
  "GetLatestProbabilities (InsertProbabilitiesAndQPS store hostname probabilities qps) = probabilities"
  by (simp add: GetLatestProbabilities_def InsertProbabilitiesAndQPS_def)

text \<open>
  C6. In the store modelled from the spec, \<^verbatim>\<open>GetLatestProbabilities\<close> after an insertion
  returns the probabilities of that insertion, whatever the host and whatever was stored
  before: one snapshot, whole. After the two insertions of \<^verbatim>\<open>testGetLatestProbability\<close> into
  any store the result is the second snapshot, \<open>{new-srv: {op: 0.1}}\<close>, with no entry for
  \<open>new-srv3\<close>, and the test of the harness finds what it expects at its first poll.
\<close>

theorem GetLatestProbabilities_latest_snapshot:
  "GetLatestProbabilities (InsertProbabilitiesAndQPS store hostname probabilities qps) =
     probabilities \<and>
   GetLatestProbabilities
     (InsertProbabilitiesAndQPS
        (InsertProbabilitiesAndQPS store ''newhostname1''
           [''new-srv3'' \<mapsto> [''op'' \<mapsto> float_0_123]] [''new-srv2'' \<mapsto> [''op'' \<mapsto> float_11]])
        ''dell11eg843d''
        [''new-srv'' \<mapsto> [''op'' \<mapsto> float_0_1]] [''new-srv'' \<mapsto> [''op'' \<mapsto> float_4]]) =
     [''new-srv'' \<mapsto> [''op'' \<mapsto> float_0_1]] \<and>
   GetLatestProbabilities
     (InsertProbabilitiesAndQPS
        (InsertProbabilitiesAndQPS store ''newhostname1''
           [''new-srv3'' \<mapsto> [''op'' \<mapsto> float_0_123]] [''new-srv2'' \<mapsto> [''op'' \<mapsto> float_11]])
        ''dell11eg843d''
        [''new-srv'' \<mapsto> [''op'' \<mapsto> float_0_1]] [''new-srv'' \<mapsto> [''op'' \<mapsto> float_4]])
     ''new-srv3'' = None \<and>
   testGetLatestProbability InsertProbabilitiesAndQPS GetLatestProbabilities sleep store"
proof -
  let ?second = "[''new-srv'' \<mapsto> [''op'' \<mapsto> float_0_1]]"
  let ?store =
    "InsertProbabilitiesAndQPS
        (InsertProbabilitiesAndQPS store ''newhostname1''
           [''new-srv3'' \<mapsto> [''op'' \<mapsto> float_0_123]] [''new-srv2'' \<mapsto> [''op'' \<mapsto> float_11]])
        ''dell11eg843d'' ?second [''new-srv'' \<mapsto> [''op'' \<mapsto> float_4]]"
  have latest: "GetLatestProbabilities ?store = ?second"
    by (rule GetLatestProbabilities_Insert)
  have absent: "GetLatestProbabilities ?store ''new-srv3'' = None"
    by (simp only: latest) simp
  have "fst ((\<lambda>w. (GetLatestProbabilities w = ?second, w)) ?store)"
    by (simp only: latest fst_conv)
  then have "fst (waitForCondition (\<lambda>w. (GetLatestProbabilities w = ?second, w)) sleep ?store)"
    by (rule waitForCondition_first_call)
  then have passes:
    "testGetLatestProbability InsertProbabilitiesAndQPS GetLatestProbabilities sleep store"
    by (simp add: testGetLatestProbability_def Let_def)
  from GetLatestProbabilities_Insert latest absent passes show ?thesis
    by (intro conjI)
qed

section \<open>Properties of skipIfNeeded\<close>

lemma parse_items_QuoteMeta:
  "parse_items (QuoteMeta pat) acc = Inr (rev acc @ map (\<lambda>c. One (Literal c)) pat)"
proof (induction pat arbitrary: acc)
  case Nil
  show ?case by simp
next
  case (Cons c cs)
  show ?case
  proof (cases "special c")
    case True
    then show ?thesis
      by (simp add: Cons.IH)
  next
    case False
    then have "c \<noteq> CHR 0x5C" "c \<noteq> CHR ''.''" "c \<noteq> CHR ''*''"
      by (auto simp: special_def)
    with False show ?thesis
      by (simp add: Cons.IH)
  qed
qed

lemma match_here_literal: "match_here (map (\<lambda>c. One (Literal c)) pat) s = prefix pat s"
proof (induction pat arbitrary: s)
  case Nil
  show ?case by simp
next
  case (Cons c cs)
  show ?case
    by (cases s) (auto simp: Cons.IH)
qed

lemma match_anywhere_literal: "match_anywhere (map (\<lambda>c. One (Literal c)) pat) s = sublist pat s"
proof (induction s)
  case Nil
  show ?case by (simp add: match_here_literal)
next
  case (Cons c cs)
  then show ?case
    by (simp add: match_here_literal sublist_Cons_right)
qed

lemma MatchString_QuoteMeta: "regexp_MatchString (QuoteMeta pat) name = Inr (sublist pat name)"
  by (simp add: regexp_MatchString_def parse_items_QuoteMeta match_anywhere_literal)

lemma skipIfNeeded_literal:
  "skipIfNeeded SkipList name =
     (if \<exists>pat \<in> set SkipList. sublist pat name then Skipped else NotSkipped)"
  by (induction SkipList) (simp_all add: MatchString_QuoteMeta)

text \<open>
  C3. The skip list \<open>[Get.*]\<close> and the test \<open>TestStorage/GetTrace\<close>: as a regular
  expression the pattern matches the name, but \<^verbatim>\<open>skipIfNeeded\<close> matches the quoted
  pattern, which asks for the five characters \<open>Get.*\<close> themselves, and the test is not
  skipped.
\<close>

theorem skipIfNeeded_quotes_the_pattern:
  "regexp_MatchString ''Get.*'' ''TestStorage/GetTrace'' = Inr True \<and>
   regexp_MatchString (QuoteMeta ''Get.*'') ''TestStorage/GetTrace'' = Inr False \<and>
   skipIfNeeded [''Get.*''] ''TestStorage/GetTrace'' = NotSkipped"
proof -
  have as_regex: "regexp_MatchString ''Get.*'' ''TestStorage/GetTrace'' = Inr True"
    by (simp add: regexp_MatchString_def special_def)
  have "\<not> sublist ''Get.*'' ''TestStorage/GetTrace''"
    by (simp add: sublist_Cons_right)
  then have quoted: "regexp_MatchString (QuoteMeta ''Get.*'') ''TestStorage/GetTrace'' = Inr False"
    and skip: "skipIfNeeded [''Get.*''] ''TestStorage/GetTrace'' = NotSkipped"
    by (simp_all only: MatchString_QuoteMeta skipIfNeeded_literal) simp_all
  from as_regex quoted skip show ?thesis
    by (intro conjI)
qed

section \<open>Properties of correctTime\<close>

lemma prefix_comparable: "prefix v (x @ w) \<Longrightarrow> prefix v x \<or> prefix x v"
  by (auto simp: prefix_append)

lemma overlaps_iff:
  "overlaps u v \<longleftrightarrow> (\<exists>x. suffix x u \<and> x \<noteq> [] \<and> (prefix x v \<or> prefix v x))"
  by (auto simp: overlaps_def list_ex_iff)

lemma ReplaceAll_skip:
  "old \<noteq> [] \<Longrightarrow> \<not> overlaps u old \<Longrightarrow> ReplaceAll (u @ w) old new = u @ ReplaceAll w old new"
proof (induction u)
  case Nil
  show ?case by simp
next
  case (Cons c u)
  have "\<not> prefix old ((c # u) @ w)"
  proof
    assume "prefix old ((c # u) @ w)"
    then have "prefix old (c # u) \<or> prefix (c # u) old"
      by (rule prefix_comparable)
    then have "overlaps (c # u) old"
      unfolding overlaps_iff by (intro exI[of _ "c # u"]) auto
    with Cons.prems show False by simp
  qed
  moreover have "\<not> overlaps u old"
    using Cons.prems(2) unfolding overlaps_iff by (auto simp: suffix_Cons)
  ultimately show ?case
    using Cons.prems(1) Cons.IH by simp
qed

lemma ReplaceAll_hit: "old \<noteq> [] \<Longrightarrow> ReplaceAll (old @ w) old new = new @ ReplaceAll w old new"
  by (cases old) simp_all

lemma no_new_occurrence:
  "A \<noteq> [] \<Longrightarrow> \<not> overlaps B Y \<Longrightarrow> prefix B (v @ ReplaceAll cs A Y) \<Longrightarrow> prefix B (v @ cs)"
proof (induction cs A Y arbitrary: v rule: ReplaceAll.induct)
  case (1 old new)
  then show ?case by simp
next
  case (2 c cs old new)
  show ?case
  proof (cases "prefix old (c # cs)")
    case True
    with "2.prems" have
      "prefix B (v @ new @ ReplaceAll (drop (length old) (c # cs)) old new)"
      by simp
    then consider "prefix B v"
      | us where "B = v @ us" "prefix us (new @ ReplaceAll (drop (length old) (c # cs)) old new)"
      by (auto simp: prefix_append)
    then show ?thesis
    proof cases
      case 1
      then show ?thesis by simp
    next
      case 2
      show ?thesis
      proof (cases "us = []")
        case True
        with 2 show ?thesis by simp
      next
        case False
        from 2(2) have "prefix us new \<or> prefix new us"
          by (rule prefix_comparable)
        with False 2(1) have "overlaps B new"
          unfolding overlaps_iff by (intro exI[of _ us]) (auto simp: suffix_def)
        with "2.prems" show ?thesis by simp
      qed
    qed
  next
    case False
    with "2.prems" have "prefix B ((v @ [c]) @ ReplaceAll cs old new)"
      by simp
    from "2.IH"(3)[OF "2.prems"(1) False "2.prems"(1,2) this] show ?thesis
      by simp
  qed
qed

lemma dates_do_not_overlap: "\<not> overlaps ''2017-01-25'' ''2017-01-26''"
  by (simp add: overlaps_def)

lemma prefix_split: "prefix xs ys \<Longrightarrow> ys = xs @ drop (length xs) ys"
  by (auto simp: prefix_def)

lemma ReplaceAll_miss:
  "old \<noteq> [] \<Longrightarrow> \<not> prefix old (c # cs) \<Longrightarrow> ReplaceAll (c # cs) old new = c # ReplaceAll cs old new"
  by simp

lemma spec_rewrite_yesterday:
  assumes "prefix ''2017-01-26'' s"
  shows "spec_rewrite_dates yesterday twoDaysAgo s =
           yesterday @ spec_rewrite_dates yesterday twoDaysAgo (drop 10 s)"
proof (cases s)
  case Nil
  with assms show ?thesis by simp
next
  case (Cons c cs)
  from assms show ?thesis
    unfolding Cons by (subst spec_rewrite_dates.simps) (simp only: if_True)
qed

lemma spec_rewrite_twoDaysAgo:
  assumes "\<not> prefix ''2017-01-26'' s" "prefix ''2017-01-25'' s"
  shows "spec_rewrite_dates yesterday twoDaysAgo s =
           twoDaysAgo @ spec_rewrite_dates yesterday twoDaysAgo (drop 10 s)"
proof (cases s)
  case Nil
  with assms show ?thesis by simp
next
  case (Cons c cs)
  from assms show ?thesis
    unfolding Cons by (subst spec_rewrite_dates.simps) (simp only: if_True if_False)
qed

lemma spec_rewrite_other:
  assumes "\<not> prefix ''2017-01-26'' (c # cs)" "\<not> prefix ''2017-01-25'' (c # cs)"
  shows "spec_rewrite_dates yesterday twoDaysAgo (c # cs) =
           c # spec_rewrite_dates yesterday twoDaysAgo cs"
  using assms by (subst spec_rewrite_dates.simps) (simp only: if_False)

lemma two_passes_one_pass:
  assumes "date_safe yesterday"
  shows "ReplaceAll (ReplaceAll s ''2017-01-26'' yesterday) ''2017-01-25'' twoDaysAgo =
           spec_rewrite_dates yesterday twoDaysAgo s"
proof (induction s rule: length_induct)
  case (1 s)
  let ?A = "''2017-01-26''" and ?B = "''2017-01-25''"
  let ?two = "\<lambda>t. ReplaceAll (ReplaceAll t ?A yesterday) ?B twoDaysAgo"
  from assms have safe: "\<not> overlaps yesterday ?B" "\<not> overlaps ?B yesterday"
    by (simp_all add: date_safe_def)
  have lenA: "length ?A = 10" and lenB: "length ?B = 10"
    by simp_all
  have notNil: "?A \<noteq> []" "?B \<noteq> []"
    by simp_all
  have IH: "\<And>t. length t < length s \<Longrightarrow> ?two t = spec_rewrite_dates yesterday twoDaysAgo t"
    using "1.IH" by blast
  show ?case
  proof (cases s)
    case Nil
    then show ?thesis by simp
  next
    case (Cons c cs)
    then have dropped: "length (drop 10 s) < length s"
      by simp
    show ?thesis
    proof (cases "prefix ?A s")
      case True
      let ?rest = "drop 10 s"
      have s: "s = ?A @ ?rest"
        using prefix_split[OF True] unfolding lenA .
      have "ReplaceAll (?A @ ?rest) ?A yesterday = yesterday @ ReplaceAll ?rest ?A yesterday"
        using notNil(1) by (rule ReplaceAll_hit)
      then have "ReplaceAll s ?A yesterday = yesterday @ ReplaceAll ?rest ?A yesterday"
        using s by metis
      then have "?two s = yesterday @ ?two ?rest"
        using ReplaceAll_skip[OF notNil(2) safe(1)] by metis
      also have "\<dots> = yesterday @ spec_rewrite_dates yesterday twoDaysAgo ?rest"
        by (simp only: IH[OF dropped])
      also have "\<dots> = spec_rewrite_dates yesterday twoDaysAgo s"
        using spec_rewrite_yesterday[OF True] by metis
      finally show ?thesis .
    next
      case notA: False
      show ?thesis
      proof (cases "prefix ?B s")
        case True
        let ?rest = "drop 10 s"
        have s: "s = ?B @ ?rest"
          using prefix_split[OF True] unfolding lenB .
        have "ReplaceAll (?B @ ?rest) ?A yesterday = ?B @ ReplaceAll ?rest ?A yesterday"
          using notNil(1) dates_do_not_overlap by (rule ReplaceAll_skip)
        then have "ReplaceAll s ?A yesterday = ?B @ ReplaceAll ?rest ?A yesterday"
          using s by metis
        then have "?two s = twoDaysAgo @ ?two ?rest"
          using ReplaceAll_hit[OF notNil(2)] by metis
        also have "\<dots> = twoDaysAgo @ spec_rewrite_dates yesterday twoDaysAgo ?rest"
          by (simp only: IH[OF dropped])
        also have "\<dots> = spec_rewrite_dates yesterday twoDaysAgo s"
          using spec_rewrite_twoDaysAgo[OF notA True] by metis
        finally show ?thesis .
      next
        case notB: False
        have shorter: "length cs < length s"
          using Cons by simp
        from notA notB have miss: "\<not> prefix ?A (c # cs)" "\<not> prefix ?B (c # cs)"
          unfolding Cons by blast+
        have first: "ReplaceAll (c # cs) ?A yesterday = c # ReplaceAll cs ?A yesterday"
          using notNil(1) miss(1) by (rule ReplaceAll_miss)
        have "\<not> prefix ?B (c # ReplaceAll cs ?A yesterday)"
        proof
          assume "prefix ?B (c # ReplaceAll cs ?A yesterday)"
          then have "prefix ?B ([c] @ ReplaceAll cs ?A yesterday)"
            by (simp only: append_Cons append_Nil)
          from no_new_occurrence[OF notNil(1) safe(2) this] have "prefix ?B (c # cs)"
            by (simp only: append_Cons append_Nil)
          with miss(2) show False by blast
        qed
        with notNil(2) have "ReplaceAll (c # ReplaceAll cs ?A yesterday) ?B twoDaysAgo =
            c # ?two cs"
          by (rule ReplaceAll_miss)
        then have "?two (c # cs) = c # ?two cs"
          using first by metis
        also have "\<dots> = c # spec_rewrite_dates yesterday twoDaysAgo cs"
          by (simp only: IH[OF shorter])
        also have "\<dots> = spec_rewrite_dates yesterday twoDaysAgo (c # cs)"
          using spec_rewrite_other[OF miss] by metis
        finally show ?thesis
          unfolding Cons .
      qed
    qed
  qed
qed

text \<open>
  C7. \<^verbatim>\<open>correctTime\<close> rewrites the text in two passes: every occurrence of
  \<open>2017-01-26\<close> becomes yesterday's date, then every occurrence of \<open>2017-01-25\<close> in the
  result of the first pass becomes the date of two days ago (dates in UTC, as
  \<open>YYYY-MM-DD\<close>). When yesterday's date can neither produce nor complete an occurrence of
  \<open>2017-01-25\<close> where it is put, the two passes do what the spec says: every occurrence
  of either literal in the input is replaced, and every other byte is unchanged. The
  parsers of the fixtures are given the rewritten text.
\<close>

theorem correctTime_two_passes:
  "correctTime now json =
     ReplaceAll (ReplaceAll json ''2017-01-26'' (days_ago now 1)) ''2017-01-25'' (days_ago now 2) \<and>
   (date_safe (days_ago now 1) \<longrightarrow>
      correctTime now json = spec_rewrite_dates (days_ago now 1) (days_ago now 2) json) \<and>
   (ReadFile path = Inr json \<longrightarrow>
      loadAndParseJSONPB ReadFile jsonpb_Unmarshal now path =
        (case jsonpb_Unmarshal (correctTime now json) of
           Inl err \<Rightarrow> Inl (RequireNoError err) | Inr object \<Rightarrow> Inr object) \<and>
      loadAndParseJSON ReadFile json_Unmarshal now path =
        (case json_Unmarshal (correctTime now json) of
           Inl err \<Rightarrow> Inl (RequireNoError err) | Inr object \<Rightarrow> Inr object))"
proof -
  have passes: "correctTime now json =
     ReplaceAll (ReplaceAll json ''2017-01-26'' (days_ago now 1)) ''2017-01-25'' (days_ago now 2)"
    by (simp add: correctTime_def Let_def)
  have one_pass: "date_safe (days_ago now 1) \<longrightarrow>
      correctTime now json = spec_rewrite_dates (days_ago now 1) (days_ago now 2) json"
    using two_passes_one_pass[of "days_ago now 1" json "days_ago now 2"]
    by (simp only: passes) blast
  have parsed: "ReadFile path = Inr json \<longrightarrow>
      loadAndParseJSONPB ReadFile jsonpb_Unmarshal now path =
        (case jsonpb_Unmarshal (correctTime now json) of
           Inl err \<Rightarrow> Inl (RequireNoError err) | Inr object \<Rightarrow> Inr object) \<and>
      loadAndParseJSON ReadFile json_Unmarshal now path =
        (case json_Unmarshal (correctTime now json) of
           Inl err \<Rightarrow> Inl (RequireNoError err) | Inr object \<Rightarrow> Inr object)"
    by (simp add: loadAndParseJSONPB_def loadAndParseJSON_def)
  from passes one_pass parsed show ?thesis
    by (intro conjI)
qed

theorem correctTime_two_passes_witness:
  "days_ago 1793620800 1 = ''2026-11-01'' \<and>
   days_ago 1793620800 2 = ''2026-10-31'' \<and>
   date_safe (days_ago 1793620800 1) \<and>
   correctTime 1793620800 ''startTime: 2017-01-26T16:46:31.639875Z, 2017-01-25T00:00:00Z'' =
     spec_rewrite_dates (days_ago 1793620800 1) (days_ago 1793620800 2)
       ''startTime: 2017-01-26T16:46:31.639875Z, 2017-01-25T00:00:00Z'' \<and>
   correctTime 1793620800 ''startTime: 2017-01-26T16:46:31.639875Z, 2017-01-25T00:00:00Z'' =
     ''startTime: 2026-11-01T16:46:31.639875Z, 2026-10-31T00:00:00Z'' \<and>
   loadAndParseJSONPB
     (\<lambda>path. Inr ''startTime: 2017-01-26T16:46:31.639875Z, 2017-01-25T00:00:00Z'')
     Inr 1793620800 ''fixtures/traces/example_trace.json'' =
     (Inr ''startTime: 2026-11-01T16:46:31.639875Z, 2026-10-31T00:00:00Z''
        :: string harness_failure + string)"
proof -
  let ?json = "''startTime: 2017-01-26T16:46:31.639875Z, 2017-01-25T00:00:00Z''"
  let ?ReadFile = "\<lambda>path :: string. Inr ?json :: string + string"
  let ?Unmarshal = "Inr :: string \<Rightarrow> string + string"
  have yesterday: "days_ago 1793620800 1 = ''2026-11-01''"
    by code_simp
  have twoDaysAgo: "days_ago 1793620800 2 = ''2026-10-31''"
    by code_simp
  have safe: "date_safe (days_ago 1793620800 1)"
    by code_simp
  have one_pass:
    "spec_rewrite_dates (days_ago 1793620800 1) (days_ago 1793620800 2) ?json =
     ''startTime: 2026-11-01T16:46:31.639875Z, 2026-10-31T00:00:00Z''"
    by code_simp
  have "read": "?ReadFile ''fixtures/traces/example_trace.json'' = Inr ?json"
    by simp
  note passes =
    correctTime_two_passes[where now = 1793620800 and json = ?json and ReadFile = ?ReadFile
      and path = "''fixtures/traces/example_trace.json''" and jsonpb_Unmarshal = ?Unmarshal
      and json_Unmarshal = ?Unmarshal]
  from passes safe
  have same: "correctTime 1793620800 ?json =
     spec_rewrite_dates (days_ago 1793620800 1) (days_ago 1793620800 2) ?json"
    by blast
  note rewritten = same[unfolded one_pass]
  from passes "read"
  have "loadAndParseJSONPB ?ReadFile ?Unmarshal 1793620800 ''fixtures/traces/example_trace.json'' =
        (case ?Unmarshal (correctTime 1793620800 ?json) of
           Inl err \<Rightarrow> Inl (RequireNoError err) | Inr object \<Rightarrow> Inr object)"
    by blast
  then have parsed:
    "loadAndParseJSONPB ?ReadFile ?Unmarshal 1793620800 ''fixtures/traces/example_trace.json'' =
       Inr ''startTime: 2026-11-01T16:46:31.639875Z, 2026-10-31T00:00:00Z''"
    by (simp only: rewritten sum.case)
  from yesterday twoDaysAgo safe same rewritten parsed show ?thesis
    by (intro conjI)
qed

text \<open>
  C7 as a single pass with all other bytes unchanged, as the spec has it, fails on the
  text \<open>2017-01-26017-01-25\<close> on 2026-11-03: the text holds one occurrence of \<open>2017-01-26\<close> and none of \<open>2017-01-25\<close>, but yesterday's date
  \<open>2026-11-02\<close> ends in \<open>2\<close>, the first pass produces \<open>2017-01-25\<close> across its end, and
  the second pass rewrites nine bytes that belonged to no occurrence.
\<close>

theorem correctTime_rescans_counterexample:
  "days_ago 1793707200 1 = ''2026-11-02'' \<and>
   days_ago 1793707200 2 = ''2026-11-01'' \<and>
   correctTime 1793707200 ''2017-01-26017-01-25'' = ''2026-11-02026-11-01'' \<and>
   spec_rewrite_dates (days_ago 1793707200 1) (days_ago 1793707200 2) ''2017-01-26017-01-25'' =
     ''2026-11-02017-01-25'' \<and>
   correctTime 1793707200 ''2017-01-26017-01-25'' \<noteq>
     spec_rewrite_dates (days_ago 1793707200 1) (days_ago 1793707200 2) ''2017-01-26017-01-25''"
proof -
  have yesterday: "days_ago 1793707200 1 = ''2026-11-02''"
    by code_simp
  have twoDaysAgo: "days_ago 1793707200 2 = ''2026-11-01''"
    by code_simp
  have code: "correctTime 1793707200 ''2017-01-26017-01-25'' = ''2026-11-02026-11-01''"
    by code_simp
  have spec:
    "spec_rewrite_dates (days_ago 1793707200 1) (days_ago 1793707200 2) ''2017-01-26017-01-25'' =
       ''2026-11-02017-01-25''"
    by code_simp
  have differ: "correctTime 1793707200 ''2017-01-26017-01-25'' \<noteq>
     spec_rewrite_dates (days_ago 1793707200 1) (days_ago 1793707200 2) ''2017-01-26017-01-25''"
    unfolding code spec by simp
  from yesterday twoDaysAgo code spec differ show ?thesis
    by (intro conjI)
qed

end
